theory Spec2Isabelle
  imports Complex_Main "HOL-Library.Log_Nat" "HOL-Library.Sublist"
begin

section \<open>Python values used by the progress-bar generator and its renderer\<close>

text \<open>
  A Python \<open>str\<close> is a sequence of Unicode code points, so a string is a list of natural
  numbers (the block glyphs U+2588..U+258F are single elements, as \<open>len\<close> counts them).
  \<open>u\<close> embeds an ASCII literal.
\<close>

type_synonym ustr = "nat list"

definition u :: "string \<Rightarrow> ustr" where
  "u s = map of_char s"

datatype error = ZeroDivisionError | ValueError | IndexError

text \<open>\<open>s * n\<close> on a string: \<open>n\<close> copies, none when \<open>n\<close> is negative.\<close>

definition str_mul :: "ustr \<Rightarrow> int \<Rightarrow> ustr" where
  "str_mul s n = concat (replicate (nat n) s)"

text \<open>\<open>s[i]\<close>: a negative index counts from the end; out of range raises IndexError.\<close>

definition str_index :: "ustr \<Rightarrow> int \<Rightarrow> error + nat" where
  "str_index s i =
     (let n = int (length s); j = (if i < 0 then n + i else i)
      in if 0 \<le> j \<and> j < n then Inr (s ! nat j) else Inl IndexError)"

text \<open>The characters \<open>str.strip()\<close> removes: those for which \<open>str.isspace\<close> holds.\<close>

definition py_isspace :: "nat \<Rightarrow> bool" where
  "py_isspace c \<longleftrightarrow>
     (9 \<le> c \<and> c \<le> 13) \<or> (28 \<le> c \<and> c \<le> 32) \<or> c = 133 \<or> c = 160 \<or> c = 5760 \<or>
     (8192 \<le> c \<and> c \<le> 8202) \<or> c = 8232 \<or> c = 8233 \<or> c = 8239 \<or> c = 8287 \<or> c = 12288"

definition strip :: "ustr \<Rightarrow> ustr" where
  "strip s = rev (dropWhile py_isspace (rev (dropWhile py_isspace s)))"

text \<open>Decimal digits of a natural number, as \<open>str(n)\<close> writes them.\<close>

fun str_nat :: "nat \<Rightarrow> ustr" where
  "str_nat n = (if n < 10 then [48 + n] else str_nat (n div 10) @ [48 + n mod 10])"

declare str_nat.simps [simp del]

subsection \<open>Floats\<close>

text \<open>
  A Python \<open>float\<close> is an IEEE-754 binary64 number. It is kept in sign-magnitude form, the
  magnitude being the exact rational value of the double, so that \<open>-0.0\<close> exists.
  Every quotient the program forms has magnitude below 2 and every product magnitude
  below 200, so infinities and NaN never arise and are left out.
\<close>

datatype pyfloat = PyFloat (sign_bit: bool) (mag: rat)


text \<open>Rounding to the nearest integer, ties to the even one.\<close>

definition round_half_even :: "rat \<Rightarrow> int" where
  "round_half_even x =
     (let f = \<lfloor>x\<rfloor>; d = x - of_int f
      in if d < 1 / 2 then f else if 1 / 2 < d then f + 1 else if even f then f else f + 1)"

text \<open>\<open>ilog2 x\<close> is \<open>\<lfloor>log\<^sub>2 x\<rfloor>\<close> for a positive rational: the binade of \<open>x\<close>.\<close>

definition ilog2 :: "rat \<Rightarrow> int" where
  "ilog2 x =
     (let (p, q) = quotient_of x; d = bitlen p - bitlen q
      in if x < 2 powi d then d - 1 else d)"

text \<open>
  The double nearest to a non-negative rational, ties to even: 53 significant bits in
  the binade of \<open>x\<close>, and the fixed spacing \<open>2\<^sup>-\<^sup>1\<^sup>0\<^sup>7\<^sup>4\<close> below \<open>2\<^sup>-\<^sup>1\<^sup>0\<^sup>2\<^sup>2\<close> (gradual underflow).
\<close>

definition binary64 :: "rat \<Rightarrow> rat" where
  "binary64 x =
     (if x = 0 then 0
      else let q = 2 powi (max (ilog2 x) (- 1022) - 52)
           in of_int (round_half_even (x / q)) * q)"

text \<open>
  \<open>a / b\<close> on two \<open>int\<close>s: the correctly rounded quotient, ZeroDivisionError when \<open>b\<close> is 0.
  The sign is the exclusive or of the operands' signs, so \<open>0 / -8\<close> is \<open>-0.0\<close>.
\<close>

definition int_truediv :: "int \<Rightarrow> int \<Rightarrow> error + pyfloat" where
  "int_truediv a b =
     (if b = 0 then Inl ZeroDivisionError
      else Inr (PyFloat ((a < 0) \<noteq> (b < 0)) (binary64 (\<bar>of_int a / of_int b\<bar>))))"

text \<open>\<open>x * n\<close> for a float and a small non-negative \<open>int\<close> (exactly representable).\<close>

definition float_mul_int :: "pyfloat \<Rightarrow> nat \<Rightarrow> pyfloat" where
  "float_mul_int x n = PyFloat (sign_bit x) (binary64 (mag x * of_nat n))"

text \<open>
  The format \<open>.1f\<close>: the double's exact value rounded to one decimal, ties to even, with a
  minus sign when the sign bit is set. Then \<open>>5\<close>: right-aligned in a field of width 5.
\<close>

definition format_1f :: "pyfloat \<Rightarrow> ustr" where
  "format_1f x =
     (let n = nat (round_half_even (mag x * 10))
      in (if sign_bit x then u ''-'' else []) @ str_nat (n div 10) @ u ''.'' @ str_nat (n mod 10))"

definition rjust :: "nat \<Rightarrow> ustr \<Rightarrow> ustr" where
  "rjust w s = replicate (w - length s) 32 @ s"

text \<open>\<open>range(start, stop, step)\<close> as a list; its length as CPython computes it.\<close>

definition py_range :: "int \<Rightarrow> int \<Rightarrow> int \<Rightarrow> error + int list" where
  "py_range start stop step =
     (if step = 0 then Inl ValueError
      else let n = (if 0 < step
                    then (if start < stop then (stop - start - 1) div step + 1 else 0)
                    else (if stop < start then (start - stop - 1) div (- step) + 1 else 0))
           in Inr (map (\<lambda>i. start + int i * step) [0..<nat n]))"

text \<open>Sequencing of computations that may raise.\<close>

definition and_then :: "error + 'a \<Rightarrow> ('a \<Rightarrow> error + 'b) \<Rightarrow> error + 'b" where
  "and_then m f = (case m of Inl e \<Rightarrow> Inl e | Inr v \<Rightarrow> f v)"

section \<open>The condition generator (progress.py)\<close>

text \<open>
  \<open>PBarConfig\<close>. The colour a \<open>cmap\<close> returns is whatever matplotlib's \<open>rgb2hex\<close> accepts; its
  type is the parameter \<open>'c\<close>, and \<open>rgb2hex\<close> itself (a library function, not code of the
  repository) is a parameter of the generator. Both are taken to return normally.
\<close>

record 'c PBarConfig =
  position :: "int \<times> int"
  signal_name :: ustr
  prefix' :: ustr
  cmap :: "(pyfloat \<Rightarrow> 'c) option"
  length' :: int
  step_size :: int

text \<open>
  One entry of the result: the template dictionary with its fields flattened
  (\<open>condition.first_signal.name\<close>, \<open>condition.constant\<close>, \<open>condition.comparator\<close>,
  \<open>icon.name\<close>, \<open>text\<close>). Every entry is a deep copy, so entries share nothing.
\<close>

record cond =
  first_signal :: ustr
  constant' :: int
  comparator :: ustr
  icon :: ustr
  text' :: ustr

text \<open>The block characters, lightest first: U+258F down to U+2588.\<close>

definition substeps :: ustr where
  "substeps = [9615, 9614, 9613, 9612, 9611, 9610, 9609, 9608]"

text \<open>The f-string \<open>[color={color}]{s}[/color]\<close>.\<close>

definition color_span :: "ustr \<Rightarrow> ustr \<Rightarrow> ustr" where
  "color_span color s = u ''[color='' @ color @ u '']'' @ s @ u ''[/color]''"

text \<open>
  The body of the loop over \<open>steps\<close> (lines 65 to 101): the arguments it passes to \<open>cmap\<close>,
  in call order, and the entry it appends. \<open>full\<close> is \<open>substeps[-1]\<close>.
\<close>

definition pbar_step ::
  "('c \<Rightarrow> ustr) \<Rightarrow> 'c PBarConfig \<Rightarrow> int \<Rightarrow> error + (pyfloat list \<times> cond)" where
  "pbar_step rgb2hex config step =
     (let divs = int (length substeps);
          max_threshold = length' config * divs;
          num_before = max (step div divs) 0;
          num_cur = step mod divs;
          num_after = length' config - num_before
      in
      and_then (str_index substeps (- 1)) (\<lambda>full.
      and_then
        (if step = - 1 then Inr ([], num_after)
         else and_then (str_index substeps num_cur) (\<lambda>cur.
                Inr (str_mul [full] num_before @ [cur], num_after - 1)))
        (\<lambda>(bar, num_after).
      and_then
        (case cmap config of
           None \<Rightarrow> Inr ([], bar)
         | Some f \<Rightarrow>
             and_then (int_truediv step (max_threshold - 1)) (\<lambda>t.
               let color = rgb2hex (f t)
               in Inr ([t], if bar \<noteq> [] then color_span color bar else bar)))
        (\<lambda>(calls1, bar).
      let step = step + 1 in
      and_then (int_truediv step (length' config * divs)) (\<lambda>frac.
      let postfix = rjust 5 (format_1f (float_mul_int frac 100)) @ u ''%'';
          num_postfix_prefix = int (length postfix) - int (length (strip postfix));
          postfix = strip postfix;
          end' = str_mul [full] num_after @ str_mul (u ''0'') num_postfix_prefix
      in
      and_then
        (case cmap config of
           None \<Rightarrow> Inr ([], end')
         | Some f \<Rightarrow>
             if end' \<noteq> [] then
               and_then (int_truediv step (max_threshold - 1)) (\<lambda>t.
                 Inr ([t], color_span (rgb2hex (f t)) end'))
             else Inr ([], end'))
        (\<lambda>(calls2, end').
      let pbar = bar @ end';
          txt = prefix' config @ u ''[font=technology-slot-level-font]'' @ pbar
                @ u ''[/font]  '' @ postfix
      in Inr (calls1 @ calls2,
              \<lparr>first_signal = signal_name config, constant' = step, comparator = u ''='',
               icon = signal_name config, text' = txt\<rparr>)))))))"

text \<open>The loop: entries are appended in order; an exception ends it.\<close>

fun pbar_loop ::
  "('c \<Rightarrow> ustr) \<Rightarrow> 'c PBarConfig \<Rightarrow> int list \<Rightarrow> pyfloat list \<times> cond list
     \<Rightarrow> error + (pyfloat list \<times> cond list)" where
  "pbar_loop rgb2hex config [] acc = Inr acc"
| "pbar_loop rgb2hex config (step # steps) (calls, conditions) =
     and_then (pbar_step rgb2hex config step) (\<lambda>(cs, c).
       pbar_loop rgb2hex config steps (calls @ cs, conditions @ [c]))"

text \<open>\<open>conditions[i]["condition"]["comparator"] = v\<close>, \<open>i\<close> being 0 or -1.\<close>

definition set_comparator :: "cond list \<Rightarrow> int \<Rightarrow> ustr \<Rightarrow> error + cond list" where
  "set_comparator conditions i v =
     (let n = int (length conditions); j = (if i < 0 then n + i else i)
      in if 0 \<le> j \<and> j < n
         then Inr (conditions[nat j := (conditions ! nat j)\<lparr>comparator := v\<rparr>])
         else Inl IndexError)"

text \<open>
  \<open>generate_pbar_conditions\<close>, together with the trace of \<open>cmap\<close> calls. The \<open>print\<close> of the
  character set has no effect on the result and is left out.
\<close>

definition run_pbar_conditions ::
  "('c \<Rightarrow> ustr) \<Rightarrow> 'c PBarConfig \<Rightarrow> error + (pyfloat list \<times> cond list)" where
  "run_pbar_conditions rgb2hex config =
     (let divs = int (length substeps);
          max_threshold = length' config * divs
      in
      and_then (py_range (- 1) max_threshold (step_size config)) (\<lambda>steps.
      and_then (if steps = [] then Inl IndexError else Inr (last steps)) (\<lambda>last_step.
      let steps = (if last_step < max_threshold - 1 then steps @ [max_threshold - 1] else steps)
      in
      and_then (pbar_loop rgb2hex config steps ([], [])) (\<lambda>(calls, conditions).
      and_then (set_comparator conditions 0 (u ''<='')) (\<lambda>conditions.
      and_then (set_comparator conditions (- 1) (u ''>='')) (\<lambda>conditions.
      Inr (calls, conditions)))))))"

definition generate_pbar_conditions ::
  "('c \<Rightarrow> ustr) \<Rightarrow> 'c PBarConfig \<Rightarrow> error + cond list" where
  "generate_pbar_conditions rgb2hex config = map_sum id snd (run_pbar_conditions rgb2hex config)"


subsection \<open>Closed forms of the loop body's values\<close>

text \<open>
  The values the body computes for the raw step \<open>s\<close> of a bar of \<open>n\<close> cells, written without
  the error plumbing: the bar before colouring, the count of cells after it, the formatted
  percentage before and after \<open>strip\<close>, the tail before colouring, and the argument
  \<open>t / (max_threshold - 1)\<close> of a \<open>cmap\<close> call.
\<close>

definition bar_of :: "int \<Rightarrow> ustr" where
  "bar_of s = (if s = - 1 then []
               else str_mul [9608] (max (s div 8) 0) @ [substeps ! nat (s mod 8)])"

definition after_of :: "int \<Rightarrow> int \<Rightarrow> int" where
  "after_of n s = (if s = - 1 then n - max (s div 8) 0 else n - max (s div 8) 0 - 1)"

definition quot_of :: "int \<Rightarrow> int \<Rightarrow> pyfloat" where
  "quot_of a b = PyFloat ((a < 0) \<noteq> (b < 0)) (binary64 (\<bar>of_int a / of_int b\<bar>))"

definition postfix_of :: "int \<Rightarrow> int \<Rightarrow> ustr" where
  "postfix_of n s = rjust 5 (format_1f (float_mul_int (quot_of (s + 1) (n * 8)) 100)) @ u ''%''"

definition label_of :: "int \<Rightarrow> int \<Rightarrow> ustr" where
  "label_of n s = strip (postfix_of n s)"

definition filler_of :: "int \<Rightarrow> int \<Rightarrow> int" where
  "filler_of n s = int (length (postfix_of n s)) - int (length (label_of n s))"

definition tail_of :: "int \<Rightarrow> int \<Rightarrow> ustr" where
  "tail_of n s = str_mul [9608] (after_of n s) @ str_mul (u ''0'') (filler_of n s)"

text \<open>\<open>wrap rgb2hex cm t s\<close>: the segment \<open>s\<close> as it enters the text, coloured by \<open>cmap(t)\<close>
  when a \<open>cmap\<close> is configured and the segment is not empty.\<close>

definition wrap :: "('c \<Rightarrow> ustr) \<Rightarrow> (pyfloat \<Rightarrow> 'c) option \<Rightarrow> pyfloat \<Rightarrow> ustr \<Rightarrow> ustr" where
  "wrap rgb2hex cm t s =
     (case cm of None \<Rightarrow> s
      | Some f \<Rightarrow> if s \<noteq> [] then color_span (rgb2hex (f t)) s else s)"

definition calls_of :: "'c PBarConfig \<Rightarrow> int \<Rightarrow> pyfloat list" where
  "calls_of config s =
     (case cmap config of None \<Rightarrow> []
      | Some f \<Rightarrow> quot_of s (length' config * 8 - 1)
          # (if tail_of (length' config) s \<noteq> []
             then [quot_of (s + 1) (length' config * 8 - 1)] else []))"

definition cond_of :: "('c \<Rightarrow> ustr) \<Rightarrow> 'c PBarConfig \<Rightarrow> int \<Rightarrow> cond" where
  "cond_of rgb2hex config s =
     \<lparr>first_signal = signal_name config, constant' = s + 1, comparator = u ''='',
      icon = signal_name config,
      text' = prefix' config @ u ''[font=technology-slot-level-font]''
        @ wrap rgb2hex (cmap config) (quot_of s (length' config * 8 - 1)) (bar_of s)
        @ wrap rgb2hex (cmap config) (quot_of (s + 1) (length' config * 8 - 1))
            (tail_of (length' config) s)
        @ u ''[/font]  '' @ label_of (length' config) s\<rparr>"

text \<open>The list \<open>steps\<close> after line 61, for a bar of \<open>n \<ge> 1\<close> cells and a step size \<open>k \<ge> 1\<close>.\<close>

definition steps_of :: "int \<Rightarrow> int \<Rightarrow> int list" where
  "steps_of n k =
     (let m = nat ((n * 8) div k + 1);
          raw = map (\<lambda>i. - 1 + int i * k) [0..<m]
      in if - 1 + int (m - 1) * k < n * 8 - 1 then raw @ [n * 8 - 1] else raw)"

text \<open>
  Lines 105 and 106 on a non-empty list: the first entry's comparator is set, then the
  last one's (on a one-element list the second assignment wins).
\<close>

definition mark_ends :: "cond list \<Rightarrow> cond list" where
  "mark_ends cs =
     (let cs1 = cs[0 := (cs ! 0)\<lparr>comparator := u ''<=''\<rparr>]
      in cs1[length cs - 1 := (cs1 ! (length cs - 1))\<lparr>comparator := u ''>=''\<rparr>])"

text \<open>The configuration the script's \<open>__main__\<close> starts from (and the test's, up to the
  signal name): ten cells, step size 1, no colour map.\<close>

definition base_config :: "ustr PBarConfig" where
  "base_config =
     \<lparr>position = (0, 0), signal_name = u ''parameter-0'', prefix' = [], cmap = None,
      length' = 10, step_size = 1\<rparr>"


text \<open>The base configuration with another length and step size.\<close>

definition with_size :: "int \<Rightarrow> int \<Rightarrow> ustr PBarConfig" where
  "with_size n k = base_config\<lparr>length' := n, step_size := k\<rparr>"


section \<open>Regular expressions, as Python's \<open>re\<close> module matches them\<close>

text \<open>
  The constructs the two patterns of the renderer use: a literal character, a character
  class (\<open>.\<close> under \<open>re.DOTALL\<close> is the class of all characters), concatenation, the empty
  pattern, the negative lookahead \<open>(?!r)\<close>, the repetition \<open>r{lo,hi}\<close> (greedy or lazy, \<open>hi\<close>
  absent for \<open>*\<close> and \<open>+\<close>) and the named group \<open>(?P<name>r)\<close>.
\<close>

datatype re =
    Eps
  | Lit nat
  | Class "nat \<Rightarrow> bool"
  | Seq re re
  | NotAhead re
  | Rep re nat "nat option" bool
  | Group string re

text \<open>A matcher state: the input still to be read and the groups captured so far.\<close>

type_synonym mstate = "ustr \<times> (string \<times> ustr) list"

text \<open>
  A backtracking matcher returns every way to match, in the order in which \<open>re\<close> tries
  them; the first one that lets the rest of the pattern match is the match.
  \<open>rep m lo hi greedy\<close> repeats the matcher \<open>m\<close>: a greedy repetition tries one more
  iteration before it tries to stop, a lazy one stops first. An iteration that reads
  nothing is not repeated.
\<close>

function rep :: "(mstate \<Rightarrow> mstate list) \<Rightarrow> nat \<Rightarrow> nat option \<Rightarrow> bool \<Rightarrow> mstate \<Rightarrow> mstate list" where
  "rep m lo hi greedy st =
     (let more = (if hi = Some 0 then []
                  else concat (map (rep m (lo - 1) (map_option (\<lambda>h. h - 1) hi) greedy)
                         (filter (\<lambda>st'. length (fst st') < length (fst st)) (m st))));
          stop = (if lo = 0 then [st] else [])
      in if greedy then more @ stop else stop @ more)"
  by pat_completeness auto
termination
  by (relation "measure (\<lambda>(m, lo, hi, greedy, st). length (fst st))") auto

declare rep.simps [simp del]

primrec rmatch :: "re \<Rightarrow> mstate \<Rightarrow> mstate list" where
  "rmatch Eps = (\<lambda>st. [st])"
| "rmatch (Lit c) = (\<lambda>(s, g). case s of [] \<Rightarrow> [] | x # xs \<Rightarrow> if x = c then [(xs, g)] else [])"
| "rmatch (Class p) = (\<lambda>(s, g). case s of [] \<Rightarrow> [] | x # xs \<Rightarrow> if p x then [(xs, g)] else [])"
| "rmatch (Seq a b) = (\<lambda>st. concat (map (rmatch b) (rmatch a st)))"
| "rmatch (NotAhead a) = (\<lambda>st. if rmatch a st = [] then [st] else [])"
| "rmatch (Rep a lo hi greedy) = rep (rmatch a) lo hi greedy"
| "rmatch (Group name a) =
     (\<lambda>(s, g). map (\<lambda>(s', g'). (s', (name, take (length s - length s') s) # g'))
                  (rmatch a (s, g)))"

text \<open>A literal string in a pattern.\<close>

primrec lit :: "ustr \<Rightarrow> re" where
  "lit [] = Eps"
| "lit (c # cs) = Seq (Lit c) (lit cs)"

text \<open>\<open>pattern.match\<close> at the start of \<open>s\<close>: the first way to match, if any.\<close>

definition match_at :: "re \<Rightarrow> ustr \<Rightarrow> mstate option" where
  "match_at r s = (case rmatch r (s, []) of [] \<Rightarrow> None | st # _ \<Rightarrow> Some st)"

text \<open>
  \<open>pattern.search(s)\<close>, scanning from position \<open>pos\<close> of the whole string, \<open>s\<close> being what is
  left from there: the leftmost position with a match, as \<open>(start, end, groups)\<close>.
\<close>

fun search_from :: "re \<Rightarrow> nat \<Rightarrow> ustr \<Rightarrow> (nat \<times> nat \<times> (string \<times> ustr) list) option" where
  "search_from r pos s =
     (case match_at r s of
        Some (rest, g) \<Rightarrow> Some (pos, pos + (length s - length rest), g)
      | None \<Rightarrow> (case s of [] \<Rightarrow> None | x # xs \<Rightarrow> search_from r (Suc pos) xs))"

declare search_from.simps [simp del]

definition re_search :: "re \<Rightarrow> ustr \<Rightarrow> (nat \<times> nat \<times> (string \<times> ustr) list) option" where
  "re_search r s = search_from r 0 s"

text \<open>
  \<open>pattern.sub(repl, s)\<close> for a constant replacement: the non-overlapping matches, leftmost
  first, are replaced. After an empty match one character is copied.
\<close>

function re_sub :: "re \<Rightarrow> ustr \<Rightarrow> ustr \<Rightarrow> ustr" where
  "re_sub r repl s =
     (case match_at r s of
        None \<Rightarrow> (case s of [] \<Rightarrow> [] | x # xs \<Rightarrow> x # re_sub r repl xs)
      | Some (rest, g) \<Rightarrow>
          if length rest < length s then repl @ re_sub r repl rest
          else (case s of [] \<Rightarrow> repl | x # xs \<Rightarrow> repl @ x # re_sub r repl xs))"
  by pat_completeness auto
termination
  by (relation "measure (\<lambda>(r, repl, s). length s)") auto

declare re_sub.simps [simp del]

text \<open>\<open>s.replace(old, new)\<close> for a non-empty \<open>old\<close>: every occurrence, leftmost first.\<close>

fun str_replace :: "ustr \<Rightarrow> ustr \<Rightarrow> ustr \<Rightarrow> ustr" where
  "str_replace old new [] = []"
| "str_replace old new (x # xs) =
     (if old \<noteq> [] \<and> prefix old (x # xs)
      then new @ str_replace old new (drop (length old - 1) xs)
      else x # str_replace old new xs)"

section \<open>The markup renderer (tests/test\_progress.py)\<close>

text \<open>\<open>[^\]]\<close> and \<open>[0-9A-Fa-f]\<close>.\<close>

definition not_bracket :: "nat \<Rightarrow> bool" where
  "not_bracket c \<longleftrightarrow> c \<noteq> 93"

definition hex_digit :: "nat \<Rightarrow> bool" where
  "hex_digit c \<longleftrightarrow> (48 \<le> c \<and> c \<le> 57) \<or> (65 \<le> c \<and> c \<le> 70) \<or> (97 \<le> c \<and> c \<le> 102)"

text \<open>\<open>FONT_OPEN_RE\<close>: \<open>\[font=[^\]]+\]\<close>.\<close>

definition FONT_OPEN_RE :: re where
  "FONT_OPEN_RE = Seq (lit (u ''[font='')) (Seq (Rep (Class not_bracket) 1 None True) (Lit 93))"

text \<open>
  \<open>INNERMOST_COLOR_RE\<close>, compiled with \<open>re.DOTALL\<close>:
  \<open>\[color=(?P<hex>#[0-9A-Fa-f]{6,8})\](?P<text>(?:(?!\[color=).)*?)\[/color\]\<close>.
\<close>

definition INNERMOST_COLOR_RE :: re where
  "INNERMOST_COLOR_RE =
     Seq (lit (u ''[color=''))
    (Seq (Group ''hex'' (Seq (Lit 35) (Rep (Class hex_digit) 6 (Some 8) True)))
    (Seq (Lit 93)
    (Seq (Group ''text''
            (Rep (Seq (NotAhead (lit (u ''[color=''))) (Class (\<lambda>c. True))) 0 None False))
         (lit (u ''[/color]'')))))"

text \<open>
  \<open>int(s, 16)\<close> on a string of hexadecimal digits. Anything else is taken to raise
  ValueError; the pattern lets only hexadecimal digits through.
\<close>

definition hex_val :: "nat \<Rightarrow> nat" where
  "hex_val c = (if c \<le> 57 then c - 48 else if c \<le> 70 then c - 55 else c - 87)"

definition int16 :: "ustr \<Rightarrow> error + nat" where
  "int16 s = (if s \<noteq> [] \<and> list_all hex_digit s
              then Inr (foldl (\<lambda>a c. 16 * a + hex_val c) 0 s) else Inl ValueError)"

text \<open>\<open>match.group(name)\<close>; an unknown name raises IndexError.\<close>

definition group :: "(string \<times> ustr) list \<Rightarrow> string \<Rightarrow> error + ustr" where
  "group g name = (case map_of g name of None \<Rightarrow> Inl IndexError | Some v \<Rightarrow> Inr v)"

text \<open>The f-string \<open>\033[38;2;{r};{g};{b}m{inner_text}\033[0m\<close>.\<close>

definition ansi_colored :: "nat \<Rightarrow> nat \<Rightarrow> nat \<Rightarrow> ustr \<Rightarrow> ustr" where
  "ansi_colored r g b inner_text =
     [27] @ u ''[38;2;'' @ str_nat r @ u '';'' @ str_nat g @ u '';'' @ str_nat b @ u ''m''
     @ inner_text @ [27] @ u ''[0m''"

text \<open>
  One pass of the loop of \<open>_render_all_colors_iteratively\<close> after a match was found
  (lines 101 to 120): the text with the matched span replaced.
\<close>

definition replace_match ::
  "ustr \<Rightarrow> nat \<times> nat \<times> (string \<times> ustr) list \<Rightarrow> error + ustr" where
  "replace_match current_text m =
     (case m of (start, end', g) \<Rightarrow>
      and_then (group g ''hex'') (\<lambda>hex_code.
      and_then (group g ''text'') (\<lambda>inner_text.
      let rgb_hex = drop (length hex_code - 6) hex_code in
      and_then (int16 (take 2 rgb_hex)) (\<lambda>r.
      and_then (int16 (take 2 (drop 2 rgb_hex))) (\<lambda>g.
      and_then (int16 (take 2 (drop 4 rgb_hex))) (\<lambda>b.
      Inr (take start current_text @ ansi_colored r g b inner_text
           @ drop end' current_text)))))))"

text \<open>
  \<open>_render_all_colors_iteratively\<close>. The \<open>while True\<close> loop is a partial function: \<open>None\<close>
  stands for a run that never leaves the loop, \<open>Some (Inl e)\<close> for an exception.
\<close>

partial_function (option) render_all_colors_iteratively :: "ustr \<Rightarrow> (error + ustr) option" where
  "render_all_colors_iteratively current_text =
     (case re_search INNERMOST_COLOR_RE current_text of
        None \<Rightarrow> Some (Inr current_text)
      | Some m \<Rightarrow>
          (case replace_match current_text m of
             Inl e \<Rightarrow> Some (Inl e)
           | Inr new_text \<Rightarrow> render_all_colors_iteratively new_text))"

declare render_all_colors_iteratively.simps [code]

text \<open>
  \<open>pretty_print_markup\<close>: \<open>rendered_markup\<close> is the value of the variable of that name, and
  the function prints it followed by a newline.
\<close>

definition rendered_markup :: "ustr \<Rightarrow> (error + ustr) option" where
  "rendered_markup markup =
     (let processed_markup = re_sub FONT_OPEN_RE [] markup;
          processed_markup = str_replace (u ''[/font]'') [] processed_markup
      in render_all_colors_iteratively processed_markup)"


subsection \<open>The two patterns read as functions\<close>

text \<open>
  What a match of \<open>FONT_OPEN_RE\<close> and of \<open>INNERMOST_COLOR_RE\<close> at the start of a string is,
  without the matcher: \<open>font_open\<close> gives the text after the font tag; \<open>color_open\<close> the hex
  code and the text after \<open>]\<close>; \<open>color_close\<close> the text up to the nearest \<open>[/color]\<close>, provided
  no \<open>[color=\<close> starts before it, and the text after it. They are proved equal to the
  matcher's results below.
\<close>

definition font_open :: "ustr \<Rightarrow> ustr option" where
  "font_open s =
     (if prefix (u ''[font='') s
      then let t = drop 6 s; n = length (takeWhile not_bracket t)
           in if 1 \<le> n \<and> n < length t then Some (drop (Suc n) t) else None
      else None)"

definition color_open :: "ustr \<Rightarrow> (ustr \<times> ustr) option" where
  "color_open s =
     (if prefix (u ''[color=#'') s
      then let t = drop 8 s; n = length (takeWhile hex_digit t)
           in if 6 \<le> n \<and> n \<le> 8 \<and> n < length t \<and> t ! n = 93
              then Some (35 # take n t, drop (Suc n) t) else None
      else None)"

fun color_close :: "ustr \<Rightarrow> (ustr \<times> ustr) option" where
  "color_close [] = None"
| "color_close (x # xs) =
     (if prefix (u ''[/color]'') (x # xs) then Some ([], drop 8 (x # xs))
      else if prefix (u ''[color='') (x # xs) then None
      else map_option (\<lambda>(inner, rest). (x # inner, rest)) (color_close xs))"

definition color_span_at :: "ustr \<Rightarrow> (ustr \<times> ustr \<times> ustr) option" where
  "color_span_at s =
     (case color_open s of
        None \<Rightarrow> None
      | Some (hex, t) \<Rightarrow>
          (case color_close t of None \<Rightarrow> None | Some (inner, rest) \<Rightarrow> Some (hex, inner, rest)))"

text \<open>The first element of a list of outcomes.\<close>

definition first_of :: "'a list \<Rightarrow> 'a option" where
  "first_of xs = (case xs of [] \<Rightarrow> None | x # _ \<Rightarrow> Some x)"

text \<open>
  The leftmost innermost span of a string, as \<open>(before, hex, inner, after)\<close>; the escape
  sequence that replaces a span; and one pass of the loop: the new text, if there is a
  span.
\<close>

fun span_search :: "ustr \<Rightarrow> (ustr \<times> ustr \<times> ustr \<times> ustr) option" where
  "span_search s =
     (case color_span_at s of
        Some (hex, inner, rest) \<Rightarrow> Some ([], hex, inner, rest)
      | None \<Rightarrow>
          (case s of
             [] \<Rightarrow> None
           | x # xs \<Rightarrow>
               map_option (\<lambda>(before, hex, inner, rest). (x # before, hex, inner, rest))
                 (span_search xs)))"

declare span_search.simps [simp del]

definition hex_pair :: "ustr \<Rightarrow> nat" where
  "hex_pair s = foldl (\<lambda>a c. 16 * a + hex_val c) 0 s"

definition ansi_span :: "ustr \<Rightarrow> ustr \<Rightarrow> ustr" where
  "ansi_span hex inner =
     (let rgb = drop (length hex - 6) hex
      in ansi_colored (hex_pair (take 2 rgb)) (hex_pair (take 2 (drop 2 rgb)))
           (hex_pair (take 2 (drop 4 rgb))) inner)"

definition color_step :: "ustr \<Rightarrow> ustr option" where
  "color_step s =
     map_option (\<lambda>(before, hex, inner, rest). before @ ansi_span hex inner @ rest)
       (span_search s)"

text \<open>The number of places at which \<open>w\<close> occurs in a string.\<close>

fun count_occ :: "ustr \<Rightarrow> ustr \<Rightarrow> nat" where
  "count_occ w [] = 0"
| "count_occ w (x # xs) = (if prefix w (x # xs) then 1 else 0) + count_occ w xs"

abbreviation (input) lazy_body :: re where
  "lazy_body \<equiv> Seq (NotAhead (lit (u ''[color=''))) (Class (\<lambda>c. True))"


text \<open>
  A string is inert when every \<open>[\<close> in it is followed by a character other than \<open>c\<close>, \<open>/\<close>
  and \<open>f\<close>: then no font tag, \<open>[/font]\<close>, \<open>[color=\<close> or \<open>[/color]\<close> starts anywhere in it, whatever
  follows it. The ANSI escape sequences are inert (\<open>[\<close> is followed by \<open>3\<close> or \<open>0\<close>).
\<close>

fun inert :: "ustr \<Rightarrow> bool" where
  "inert [] \<longleftrightarrow> True"
| "inert [x] \<longleftrightarrow> x \<noteq> 91"
| "inert (x # y # r) \<longleftrightarrow> (x = 91 \<longrightarrow> y \<noteq> 99 \<and> y \<noteq> 47 \<and> y \<noteq> 102) \<and> inert (y # r)"

text \<open>A span found in \<open>s\<close>, seen from \<open>t @ s\<close>.\<close>

fun shift :: "ustr \<Rightarrow> (ustr \<times> ustr \<times> ustr \<times> ustr) option
    \<Rightarrow> (ustr \<times> ustr \<times> ustr \<times> ustr) option" where
  "shift t None = None"
| "shift t (Some (b, h, i, a)) = Some (t @ b, h, i, a)"

text \<open>A hex code as the pattern accepts it: \<open>#\<close> and 6 to 8 hexadecimal digits.\<close>

definition hex_code :: "ustr \<Rightarrow> bool" where
  "hex_code h \<longleftrightarrow>
     (case h of [] \<Rightarrow> False
      | x # d \<Rightarrow> x = 35 \<and> 6 \<le> length d \<and> length d \<le> 8 \<and> list_all hex_digit d)"

text \<open>
  What \<open>wrap\<close> turns into when rendered: the segment itself, or the segment between the
  escape sequence of its colour and the reset sequence.
\<close>

definition wrap_rendered ::
  "('c \<Rightarrow> ustr) \<Rightarrow> (pyfloat \<Rightarrow> 'c) option \<Rightarrow> pyfloat \<Rightarrow> ustr \<Rightarrow> ustr" where
  "wrap_rendered rgb2hex cm t s =
     (case cm of None \<Rightarrow> s
      | Some f \<Rightarrow> if s \<noteq> [] then ansi_span (rgb2hex (f t)) s else s)"

text \<open>\<open>quiet c s\<close>: every \<open>[\<close> in \<open>s\<close> is followed, in \<open>s\<close>, by a character other than \<open>c\<close>.\<close>

fun quiet :: "nat \<Rightarrow> ustr \<Rightarrow> bool" where
  "quiet c [] \<longleftrightarrow> True"
| "quiet c [x] \<longleftrightarrow> x \<noteq> 91"
| "quiet c (x # y # r) \<longleftrightarrow> (x = 91 \<longrightarrow> y \<noteq> c) \<and> quiet c (y # r)"

section \<open>Properties of the Python values\<close>



lemma round_half_even_of_int [simp]: "round_half_even (of_int n) = n"
  by (simp add: round_half_even_def)








lemma str_nat_digits: "set (str_nat n) \<subseteq> {48..57}"
proof (induction n rule: str_nat.induct)
  case (1 n)
  show ?case
  proof (cases "n < 10")
    case True
    then show ?thesis by (subst str_nat.simps) simp
  next
    case False
    have "n mod 10 < 10" by simp
    then have "48 + n mod 10 \<in> {48..57}" by (simp del: mod_less_divisor)
    with 1 False show ?thesis by (subst str_nat.simps) simp
  qed
qed



lemma u_single [simp]: "u [c] = [of_char c]"
  by (simp add: u_def)




lemma binary64_1 [simp]: "binary64 1 = 1"
  by code_simp

lemma binary64_100 [simp]: "binary64 100 = 100"
  by code_simp





section \<open>Properties of the condition generator\<close>

lemma and_then_Inr [simp]: "and_then (Inr v) f = f v"
  by (simp add: and_then_def)

lemma and_then_Inl [simp]: "and_then (Inl e) f = Inl e"
  by (simp add: and_then_def)

lemma length_substeps [simp]: "length substeps = 8"
  by (simp add: substeps_def)

lemma str_index_last [simp]: "str_index substeps (- 1) = Inr 9608"
  by (simp add: str_index_def substeps_def)

lemma str_index_mod [simp]: "str_index substeps (s mod 8) = Inr (substeps ! nat (s mod 8))"
  by (simp add: str_index_def)

lemma int_truediv_quot: "b \<noteq> 0 \<Longrightarrow> int_truediv a b = Inr (quot_of a b)"
  by (simp add: int_truediv_def quot_of_def)

lemma pbar_step_closed:
  assumes "length' config \<noteq> 0"
  shows "pbar_step rgb2hex config s = Inr (calls_of config s, cond_of rgb2hex config s)"
proof -
  have "length' config * 8 \<noteq> 0" using assms by simp
  then have q: "int_truediv a (length' config * 8) = Inr (quot_of a (length' config * 8))" for a
    by (rule int_truediv_quot)
  have "length' config * 8 - 1 \<noteq> 0" by presburger
  then have q1: "int_truediv a (length' config * 8 - 1) = Inr (quot_of a (length' config * 8 - 1))"
    for a by (rule int_truediv_quot)
  show ?thesis
  proof (cases "cmap config")
    case None
    then show ?thesis
      by (cases "s = - 1")
        (simp_all add: pbar_step_def q calls_of_def cond_of_def wrap_def
          bar_of_def after_of_def tail_of_def filler_of_def label_of_def postfix_of_def Let_def)
  next
    case (Some f)
    then show ?thesis
      by (cases "s = - 1")
        (simp_all add: pbar_step_def q q1 calls_of_def cond_of_def wrap_def
          bar_of_def after_of_def tail_of_def filler_of_def label_of_def postfix_of_def Let_def)
  qed
qed

lemma pbar_loop_closed:
  assumes "length' config \<noteq> 0"
  shows "pbar_loop rgb2hex config steps (calls, conds) =
         Inr (calls @ concat (map (calls_of config) steps),
              conds @ map (cond_of rgb2hex config) steps)"
  by (induction steps arbitrary: calls conds) (simp_all add: pbar_step_closed [OF assms])

lemma steps_raw_last:
  assumes "1 \<le> n" "1 \<le> k"
  shows "- 1 + int (nat ((n * 8) div k + 1) - 1) * k \<le> n * 8 - 1"
proof -
  have "0 \<le> (n * 8) div k" using assms by (simp add: pos_imp_zdiv_nonneg_iff)
  then have "int (nat ((n * 8) div k + 1) - 1) = (n * 8) div k" by simp
  moreover have "(n * 8) div k * k \<le> n * 8" using assms
    by (metis div_mult_mod_eq le_add_same_cancel1 order.strict_iff_not not_le pos_mod_sign zero_less_one order.strict_trans2)
  ultimately show ?thesis by simp
qed

lemma py_range_steps:
  assumes "1 \<le> n" "1 \<le> k"
  shows "py_range (- 1) (n * 8) k =
         Inr (map (\<lambda>i. - 1 + int i * k) [0..<nat ((n * 8) div k + 1)])"
  using assms by (simp add: py_range_def)

lemma steps_of_nonempty:
  assumes "1 \<le> n" "1 \<le> k"
  shows "steps_of n k \<noteq> []"
proof -
  have "0 \<le> (n * 8) div k" using assms by (simp add: pos_imp_zdiv_nonneg_iff)
  then have "0 < nat ((n * 8) div k + 1)" by simp
  then show ?thesis by (simp add: steps_of_def Let_def)
qed

lemma steps_of_hd:
  assumes "1 \<le> n" "1 \<le> k"
  shows "hd (steps_of n k) = - 1"
proof -
  have "0 \<le> (n * 8) div k" using assms by (simp add: pos_imp_zdiv_nonneg_iff)
  then have "0 < nat ((n * 8) div k + 1)" by simp
  then have "hd (map (\<lambda>i. - 1 + int i * k) [0..<nat ((n * 8) div k + 1)]) = - 1"
    by (simp add: hd_map upt_conv_Cons)
  moreover have "map (\<lambda>i. - 1 + int i * k) [0..<nat ((n * 8) div k + 1)] \<noteq> []"
    using \<open>0 < nat ((n * 8) div k + 1)\<close> by simp
  ultimately show ?thesis by (simp add: steps_of_def Let_def del: upt_Suc)
qed

lemma steps_of_last:
  assumes "1 \<le> n" "1 \<le> k"
  shows "last (steps_of n k) = n * 8 - 1"
proof -
  let ?m = "nat ((n * 8) div k + 1)"
  have "0 \<le> (n * 8) div k" using assms by (simp add: pos_imp_zdiv_nonneg_iff)
  then have m: "0 < ?m" by simp
  then have l: "last (map (\<lambda>i. - 1 + int i * k) [0..<?m]) = - 1 + int (?m - 1) * k"
    by (simp add: last_map last_upt)
  show ?thesis
  proof (cases "- 1 + int (?m - 1) * k < n * 8 - 1")
    case True
    then show ?thesis by (simp add: steps_of_def Let_def)
  next
    case False
    with steps_raw_last [OF assms] have "- 1 + int (?m - 1) * k = n * 8 - 1" by linarith
    with False l show ?thesis by (simp add: steps_of_def Let_def)
  qed
qed

lemma steps_of_sorted:
  assumes "1 \<le> n" "1 \<le> k"
  shows "sorted_wrt (<) (steps_of n k)"
proof -
  let ?m = "nat ((n * 8) div k + 1)"
  let ?f = "\<lambda>i. - 1 + int i * k"
  have raw: "sorted_wrt (<) (map ?f [0..<?m])"
    using assms by (auto simp: sorted_wrt_iff_nth_less mult_strict_right_mono)
  have bound: "x \<le> - 1 + int (?m - 1) * k" if "x \<in> set (map ?f [0..<?m])" for x
  proof -
    from that obtain i where i: "i < ?m" "x = ?f i" by auto
    then have "int i \<le> int (?m - 1)" by simp
    then have "int i * k \<le> int (?m - 1) * k" using assms by (simp add: mult_right_mono)
    with i show ?thesis by simp
  qed
  show ?thesis
  proof (cases "- 1 + int (?m - 1) * k < n * 8 - 1")
    case True
    then have "\<forall>x\<in>set (map ?f [0..<?m]). x < n * 8 - 1"
      using bound by fastforce
    with raw True show ?thesis
      by (simp add: steps_of_def Let_def sorted_wrt_append del: upt_Suc set_map)
  next
    case False
    with raw show ?thesis by (simp add: steps_of_def Let_def del: upt_Suc)
  qed
qed


lemma steps_of_length:
  assumes "1 \<le> n" "1 \<le> k"
  shows "2 \<le> length (steps_of n k)"
proof (rule ccontr)
  assume "\<not> 2 \<le> length (steps_of n k)"
  moreover have "length (steps_of n k) \<noteq> 0"
    using steps_of_nonempty [OF assms] by simp
  ultimately have "length (steps_of n k) = 1" by linarith
  then obtain x where "steps_of n k = [x]"
    by (auto simp: length_Suc_conv)
  with steps_of_hd [OF assms] steps_of_last [OF assms] have "- 1 = n * 8 - 1" by simp
  with assms show False by simp
qed

lemma set_comparator_first:
  "cs \<noteq> [] \<Longrightarrow> set_comparator cs 0 v = Inr (cs[0 := (cs ! 0)\<lparr>comparator := v\<rparr>])"
  by (simp add: set_comparator_def)

lemma set_comparator_last:
  "cs \<noteq> [] \<Longrightarrow>
   set_comparator cs (- 1) v = Inr (cs[length cs - 1 := (cs ! (length cs - 1))\<lparr>comparator := v\<rparr>])"
  by (cases cs) (simp_all add: set_comparator_def Let_def nat_diff_distrib)

lemma run_closed:
  assumes "1 \<le> length' config" "1 \<le> step_size config"
  shows "run_pbar_conditions rgb2hex config =
         Inr (concat (map (calls_of config) (steps_of (length' config) (step_size config))),
              mark_ends (map (cond_of rgb2hex config) (steps_of (length' config) (step_size config))))"
proof -
  let ?n = "length' config" and ?k = "step_size config"
  let ?m = "nat ((?n * 8) div ?k + 1)"
  let ?raw = "map (\<lambda>i. - 1 + int i * ?k) [0..<?m]"
  have nz: "?n \<noteq> 0" using assms by simp
  have "0 \<le> (?n * 8) div ?k" using assms by (simp add: pos_imp_zdiv_nonneg_iff)
  then have m: "0 < ?m" by simp
  then have raw_ne: "?raw \<noteq> []" by simp
  have l: "last ?raw = - 1 + int (?m - 1) * ?k"
    using m by (simp add: last_map last_upt)
  have st: "(if last ?raw < ?n * 8 - 1 then ?raw @ [?n * 8 - 1] else ?raw) = steps_of ?n ?k"
    unfolding l by (simp add: steps_of_def Let_def)
  have ne: "map (cond_of rgb2hex config) (steps_of ?n ?k) \<noteq> []"
    using steps_of_nonempty [OF assms] by simp
  then have ne1: "(map (cond_of rgb2hex config) (steps_of ?n ?k))
      [0 := (map (cond_of rgb2hex config) (steps_of ?n ?k) ! 0)\<lparr>comparator := u ''<=''\<rparr>] \<noteq> []"
    by simp
  show ?thesis
    unfolding run_pbar_conditions_def Let_def length_substeps
    apply (simp only: py_range_steps [OF assms] and_then_Inr raw_ne if_False st
        pbar_loop_closed [OF nz] append_Nil prod.case of_nat_numeral)
    apply (simp only: set_comparator_first [OF ne] and_then_Inr set_comparator_last [OF ne1])
    apply (simp add: mark_ends_def Let_def)
    done
qed

lemma length_mark_ends [simp]: "length (mark_ends cs) = length cs"
  by (simp add: mark_ends_def Let_def)

lemma mark_ends_nth:
  assumes "i < length cs"
  shows "mark_ends cs ! i =
         (if i = length cs - 1 then (cs ! i)\<lparr>comparator := u ''>=''\<rparr>
          else if i = 0 then (cs ! i)\<lparr>comparator := u ''<=''\<rparr> else cs ! i)"
proof -
  have "0 < length cs" using assms by linarith
  then show ?thesis using assms
    by (auto simp add: mark_ends_def Let_def nth_list_update)
qed

lemma mark_ends_constant [simp]: "map constant' (mark_ends cs) = map constant' cs"
  by (rule nth_equalityI) (simp_all add: mark_ends_nth)


lemma mark_ends_first:
  assumes "2 \<le> length cs"
  shows "comparator (mark_ends cs ! 0) = u ''<=''"
proof -
  have "0 < length cs" "0 \<noteq> length cs - 1" using assms by linarith+
  then show ?thesis by (simp add: mark_ends_nth)
qed

lemma mark_ends_last:
  "cs \<noteq> [] \<Longrightarrow> comparator (mark_ends cs ! (length cs - 1)) = u ''>=''"
  by (simp add: mark_ends_nth)

lemma mark_ends_middle:
  "0 < i \<Longrightarrow> i < length cs - 1 \<Longrightarrow> mark_ends cs ! i = cs ! i"
  by (simp add: mark_ends_nth)

lemma generate_closed:
  assumes "1 \<le> length' config" "1 \<le> step_size config"
  shows "generate_pbar_conditions rgb2hex config =
         Inr (mark_ends (map (cond_of rgb2hex config)
                (steps_of (length' config) (step_size config))))"
  by (simp add: generate_pbar_conditions_def run_closed [OF assms])

lemma thresholds_closed:
  "map constant' (mark_ends (map (cond_of rgb2hex config) steps)) = map (\<lambda>s. s + 1) steps"
  by (simp add: cond_of_def comp_def)

lemma sorted_wrt_succ:
  "sorted_wrt (<) (xs :: int list) \<Longrightarrow> sorted_wrt (<) (map (\<lambda>s. s + 1) xs)"
  by (induction xs) auto

lemma steps_of_base: "length (steps_of 10 1) = 81"
  by (simp add: steps_of_def Let_def)

lemma generate_base_last:
  "map_sum id (constant' \<circ> last) (generate_pbar_conditions (\<lambda>c. c) base_config) = Inr 80"
proof -
  have a: "1 \<le> length' base_config" "1 \<le> step_size base_config"
    by (simp_all add: base_config_def)
  let ?steps = "steps_of (length' base_config) (step_size base_config)"
  let ?cs = "mark_ends (map (cond_of (\<lambda>c. c) base_config) ?steps)"
  have ne: "?steps \<noteq> []" by (rule steps_of_nonempty [OF a])
  then have cne: "?cs \<noteq> []" by (metis length_mark_ends length_map length_0_conv)
  have "constant' (last ?cs) = last (map constant' ?cs)"
    by (rule last_map [symmetric]) (rule cne)
  also have "\<dots> = last ?steps + 1"
    unfolding thresholds_closed using ne by (simp add: last_map)
  finally have "constant' (last ?cs) = 80"
    by (simp add: steps_of_last [OF a]) (simp add: base_config_def)
  then show ?thesis by (simp add: generate_closed [OF a])
qed









lemma mark_ends_Nil [simp]: "mark_ends cs = [] \<longleftrightarrow> cs = []"
  by (metis length_0_conv length_mark_ends)

lemma run_zero_step:
  assumes "step_size config = 0"
  shows "run_pbar_conditions rgb2hex config = Inl ValueError"
  using assms by (simp add: run_pbar_conditions_def py_range_def)

lemma run_empty_range:
  assumes "py_range (- 1) (length' config * 8) (step_size config) = Inr []"
  shows "run_pbar_conditions rgb2hex config = Inl IndexError"
  using assms by (simp add: run_pbar_conditions_def)

lemma run_negative_step:
  assumes "step_size config < 0" "0 \<le> length' config"
  shows "run_pbar_conditions rgb2hex config = Inl IndexError"
  by (rule run_empty_range) (use assms in \<open>simp add: py_range_def\<close>)

lemma run_negative_length:
  assumes "0 < step_size config" "length' config < 0"
  shows "run_pbar_conditions rgb2hex config = Inl IndexError"
  by (rule run_empty_range) (use assms in \<open>simp add: py_range_def\<close>)

lemma pbar_step_zero_length:
  assumes "length' config = 0"
  shows "pbar_step rgb2hex config (- 1) = Inl ZeroDivisionError"
proof -
  have z: "int_truediv 0 0 = Inl ZeroDivisionError" by (simp add: int_truediv_def)
  have o: "int_truediv (- 1) (- 1) = Inr (quot_of (- 1) (- 1))"
    by (simp add: int_truediv_quot)
  show ?thesis
    by (cases "cmap config") (simp_all add: pbar_step_def assms z o Let_def)
qed

lemma run_zero_length:
  assumes "0 < step_size config" "length' config = 0"
  shows "run_pbar_conditions rgb2hex config = Inl ZeroDivisionError"
proof -
  have "py_range (- 1) 0 (step_size config) = Inr [- 1]"
    using assms(1) by (simp add: py_range_def)
  then show ?thesis
    by (simp add: run_pbar_conditions_def assms(2) pbar_step_zero_length [OF assms(2)])
qed

lemma run_closed_raw:
  assumes "py_range (- 1) (length' config * 8) (step_size config) = Inr raw" "raw \<noteq> []"
    "length' config \<noteq> 0"
    "st = (if last raw < length' config * 8 - 1 then raw @ [length' config * 8 - 1] else raw)"
  shows "run_pbar_conditions rgb2hex config =
         Inr (concat (map (calls_of config) st), mark_ends (map (cond_of rgb2hex config) st))"
proof -
  have ne: "map (cond_of rgb2hex config) st \<noteq> []" using assms(2,4) by simp
  then have ne1: "(map (cond_of rgb2hex config) st)
      [0 := (map (cond_of rgb2hex config) st ! 0)\<lparr>comparator := u ''<=''\<rparr>] \<noteq> []"
    by simp
  show ?thesis
    unfolding run_pbar_conditions_def Let_def length_substeps
    apply (simp only: assms(1) and_then_Inr assms(2) if_False assms(4) [symmetric]
        pbar_loop_closed [OF assms(3)] append_Nil prod.case of_nat_numeral)
    apply (simp only: set_comparator_first [OF ne] and_then_Inr set_comparator_last [OF ne1])
    apply (simp add: mark_ends_def Let_def)
    done
qed

lemma run_both_negative:
  assumes "step_size config < 0" "length' config < 0"
  shows "\<exists>calls cs. run_pbar_conditions rgb2hex config = Inr (calls, cs) \<and> cs \<noteq> []"
proof -
  let ?n = "length' config" and ?k = "step_size config"
  let ?m = "nat ((- 1 - ?n * 8 - 1) div (- ?k) + 1)"
  let ?raw = "map (\<lambda>i. - 1 + int i * ?k) [0..<?m]"
  have r: "py_range (- 1) (?n * 8) ?k = Inr ?raw"
    using assms by (simp add: py_range_def)
  have "0 \<le> (- 1 - ?n * 8 - 1) div (- ?k)"
    using assms by (simp add: pos_imp_zdiv_nonneg_iff)
  then have "0 < ?m" by linarith
  then have ne: "?raw \<noteq> []" by simp
  have nz: "?n \<noteq> 0" using assms by simp
  let ?st = "if last ?raw < ?n * 8 - 1 then ?raw @ [?n * 8 - 1] else ?raw"
  have "?st \<noteq> []" using ne by (simp del: upt_Suc)
  then have "mark_ends (map (cond_of rgb2hex config) ?st) \<noteq> []"
    by (simp only: mark_ends_Nil map_is_Nil_conv not_False_eq_True)
  with run_closed_raw [OF r ne nz refl, of rgb2hex] show ?thesis by blast
qed

lemma run_never_empty: "run_pbar_conditions rgb2hex config \<noteq> Inr (calls, [])"
proof -
  consider "step_size config = 0"
    | "step_size config < 0" "0 \<le> length' config"
    | "step_size config < 0" "length' config < 0"
    | "0 < step_size config" "length' config < 0"
    | "0 < step_size config" "length' config = 0"
    | "1 \<le> step_size config" "1 \<le> length' config"
    by linarith
  then show ?thesis
  proof cases
    case 1 then show ?thesis by (simp add: run_zero_step)
  next
    case 2 then show ?thesis by (simp add: run_negative_step)
  next
    case 3 with run_both_negative [of config rgb2hex] show ?thesis by auto
  next
    case 4 then show ?thesis by (simp add: run_negative_length)
  next
    case 5 then show ?thesis by (simp add: run_zero_length)
  next
    case 6
    have "steps_of (length' config) (step_size config) \<noteq> []"
      by (rule steps_of_nonempty [OF 6(2,1)])
    then have "mark_ends (map (cond_of rgb2hex config)
        (steps_of (length' config) (step_size config))) \<noteq> []"
      by simp
    then show ?thesis by (simp add: run_closed [OF 6(2,1)])
  qed
qed





section \<open>Properties of the matcher and of the renderer\<close>

lemma first_of_simps [simp]:
  "first_of [] = None" "first_of (x # xs) = Some x"
  by (simp_all add: first_of_def)

lemma first_of_append:
  "first_of (xs @ ys) = (case first_of xs of None \<Rightarrow> first_of ys | Some x \<Rightarrow> Some x)"
  by (cases xs) simp_all

lemma match_at_first: "match_at r s = first_of (rmatch r (s, []))"
  by (simp add: match_at_def first_of_def)

lemma rmatch_Eps [simp]: "rmatch Eps st = [st]"
  by simp

lemma rmatch_Seq: "rmatch (Seq a b) st = concat (map (rmatch b) (rmatch a st))"
  by simp

lemma rmatch_NotAhead: "rmatch (NotAhead a) st = (if rmatch a st = [] then [st] else [])"
  by simp

lemma rmatch_Rep: "rmatch (Rep a lo hi greedy) st = rep (rmatch a) lo hi greedy st"
  by simp

lemma rmatch_Lit:
  "rmatch (Lit c) (s, g) = (case s of [] \<Rightarrow> [] | x # xs \<Rightarrow> if x = c then [(xs, g)] else [])"
  by simp

lemma rmatch_Class:
  "rmatch (Class p) (s, g) = (case s of [] \<Rightarrow> [] | x # xs \<Rightarrow> if p x then [(xs, g)] else [])"
  by simp

lemma rmatch_Group:
  "rmatch (Group name a) (s, g) =
     map (\<lambda>(s', g'). (s', (name, take (length s - length s') s) # g')) (rmatch a (s, g))"
  by simp

declare rmatch.simps [simp del]

lemma rmatch_lit:
  "rmatch (lit w) (s, g) = (if prefix w s then [(drop (length w) s, g)] else [])"
proof (induction w arbitrary: s)
  case Nil
  show ?case by simp
next
  case (Cons c w)
  show ?case
  proof (cases s)
    case Nil
    then show ?thesis by (simp add: rmatch_Lit rmatch_Seq)
  next
    case (Cons x xs)
    then show ?thesis using Cons.IH [of xs] by (simp add: rmatch_Lit rmatch_Seq)
  qed
qed

lemma rep_class_greedy:
  assumes "\<And>x xs g'. p x \<Longrightarrow> K (x # xs, g') = []"
  shows "concat (map K (rep (rmatch (Class p)) lo hi True (t, g))) =
         (let n = length (takeWhile p t)
          in if lo \<le> n \<and> (case hi of None \<Rightarrow> True | Some h \<Rightarrow> n \<le> h)
             then K (drop n t, g) else [])"
proof (induction t arbitrary: lo hi)
  case Nil
  show ?case by (subst rep.simps) (auto simp add: Let_def rmatch_Class split: option.splits)
next
  case (Cons x xs)
  show ?case
  proof (cases "p x")
    case False
    then show ?thesis
      by (subst rep.simps) (auto simp add: Let_def rmatch_Class split: option.splits)
  next
    case True
    show ?thesis
    proof (cases "hi = Some 0")
      case True
      with \<open>p x\<close> assms show ?thesis by (subst rep.simps) (simp add: Let_def rmatch_Class)
    next
      case False
      have "concat (map K (rep (rmatch (Class p)) lo hi True (x # xs, g))) =
            concat (map K (rep (rmatch (Class p)) (lo - 1) (map_option (\<lambda>h. h - 1) hi) True (xs, g)))"
        using \<open>p x\<close> False assms by (subst rep.simps) (simp add: Let_def rmatch_Class)
      also have "\<dots> = (let n = length (takeWhile p xs)
          in if lo - 1 \<le> n \<and> (case map_option (\<lambda>h. h - 1) hi of None \<Rightarrow> True | Some h \<Rightarrow> n \<le> h)
             then K (drop n xs, g) else [])"
        by (rule Cons.IH)
      also have "\<dots> = (let n = length (takeWhile p (x # xs))
          in if lo \<le> n \<and> (case hi of None \<Rightarrow> True | Some h \<Rightarrow> n \<le> h)
             then K (drop n (x # xs), g) else [])"
        using \<open>p x\<close> False by (cases hi) (auto simp add: Let_def)
      finally show ?thesis .
    qed
  qed
qed

lemma u_Nil_iff [simp]: "u s = [] \<longleftrightarrow> s = []"
  by (simp add: u_def)

lemma tag_lengths [simp]:
  "length (u ''[font='') = 6" "length (u ''[color='') = 7" "length (u ''[color=#'') = 8"
  "length (u ''[/color]'') = 8" "length (u ''[/font]'') = 7"
  by (simp_all add: u_def)

lemma takeWhile_stop:
  assumes "length (takeWhile p t) < length t"
  shows "drop (length (takeWhile p t)) t
         = t ! length (takeWhile p t) # drop (Suc (length (takeWhile p t))) t"
    and "\<not> p (t ! length (takeWhile p t))"
  using assms by (simp_all add: Cons_nth_drop_Suc nth_length_takeWhile)

lemma match_at_font: "match_at FONT_OPEN_RE s = map_option (\<lambda>r. (r, [])) (font_open s)"
proof (cases "prefix (u ''[font='') s")
  case False
  then show ?thesis
    by (simp add: match_at_first FONT_OPEN_RE_def rmatch_lit rmatch_Seq font_open_def)
next
  case True
  let ?t = "drop 6 s"
  let ?n = "length (takeWhile not_bracket ?t)"
  have K: "\<And>x xs g'. not_bracket x \<Longrightarrow> rmatch (Lit 93) (x # xs, g') = []"
    by (simp add: not_bracket_def rmatch_Lit)
  have r: "rmatch FONT_OPEN_RE (s, []) =
        (if 1 \<le> ?n then rmatch (Lit 93) (drop ?n ?t, []) else [])"
    using True
    by (simp add: FONT_OPEN_RE_def rmatch_lit rmatch_Seq rmatch_Rep rep_class_greedy [where p = not_bracket and K = "rmatch (Lit 93)", OF K] Let_def)
  show ?thesis
  proof (cases "?n < length ?t")
    case False
    then have "drop ?n ?t = []" by simp
    with r True False show ?thesis
      by (simp add: match_at_first font_open_def Let_def rmatch_Lit)
  next
    case n: True
    from takeWhile_stop [OF n] have d: "drop ?n ?t = 93 # drop (Suc ?n) ?t"
      by (simp add: not_bracket_def)
    have "rmatch (Lit 93) (drop ?n ?t, []) = [(drop (Suc ?n) ?t, [])]"
      unfolding d by (simp add: rmatch_Lit)
    then show ?thesis
      using True n by (simp add: match_at_first r font_open_def Let_def del: drop_drop)
  qed
qed

lemma body_step:
  "rmatch lazy_body (r, g) =
     (if prefix (u ''[color='') r then [] else case r of [] \<Rightarrow> [] | x # xs \<Rightarrow> [(xs, g)])"
  by (simp add: rmatch_Seq rmatch_NotAhead rmatch_lit rmatch_Class split: list.splits)

lemma lazy_unfold:
  "rep (rmatch lazy_body) 0 None False (r, g) =
     (r, g) # (case r of [] \<Rightarrow> []
               | x # xs \<Rightarrow> if prefix (u ''[color='') (x # xs) then []
                           else rep (rmatch lazy_body) 0 None False (xs, g))"
  by (subst rep.simps) (simp add: body_step Let_def split: list.splits)

lemma lazy_close:
  "first_of (concat (map
       (\<lambda>(r', g'). rmatch (lit (u ''[/color]''))
                      (r', (''text'', take (length (pre @ r) - length r') (pre @ r)) # g'))
       (rep (rmatch lazy_body) 0 None False (r, g))))
   = map_option (\<lambda>(inner, rest). (rest, (''text'', pre @ inner) # g)) (color_close r)"
proof (induction r arbitrary: pre)
  case Nil
  show ?case by (subst lazy_unfold) (simp add: rmatch_lit)
next
  case (Cons x xs)
  show ?case
  proof (cases "prefix (u ''[/color]'') (x # xs)")
    case True
    then show ?thesis by (subst lazy_unfold) (simp add: rmatch_lit first_of_append)
  next
    case nc: False
    show ?thesis
    proof (cases "prefix (u ''[color='') (x # xs)")
      case True
      with nc show ?thesis by (subst lazy_unfold) (simp add: rmatch_lit)
    next
      case False
      have "pre @ x # xs = (pre @ [x]) @ xs" by simp
      then show ?thesis
        using nc False Cons.IH [of "pre @ [x]"]
        by (subst lazy_unfold) (simp add: rmatch_lit option.map_comp comp_def case_prod_unfold)
    qed
  qed
qed

lemma match_at_color:
  "match_at INNERMOST_COLOR_RE s =
     map_option (\<lambda>(hex, inner, rest). (rest, [(''text'', inner), (''hex'', hex)]))
       (color_span_at s)"
proof (cases "prefix (u ''[color=#'') s")
  case False
  then have "rmatch INNERMOST_COLOR_RE (s, []) = []"
    by (cases "drop 7 s")
       (auto simp add: INNERMOST_COLOR_RE_def rmatch_lit rmatch_Seq rmatch_Group rmatch_Lit
         u_def prefix_def)
  with False show ?thesis
    by (simp add: match_at_first color_span_at_def color_open_def)
next
  case True
  then obtain t where s: "s = u ''[color=#'' @ t" by (auto simp add: prefix_def)
  then have d7: "drop 7 s = 35 # t" and d8: "drop 8 s = t" and p7: "prefix (u ''[color='') s"
    by (simp_all add: u_def)
  let ?n = "length (takeWhile hex_digit t)"
  let ?rest = "Seq (Lit 93) (Seq (Group ''text'' (Rep lazy_body 0 None False)) (lit (u ''[/color]'')))"
  let ?K = "\<lambda>st. rmatch ?rest
      (case st of (s', g') \<Rightarrow> (s', (''hex'', take (length (35 # t) - length s') (35 # t)) # g'))"
  have K: "\<And>x xs g'. hex_digit x \<Longrightarrow> ?K (x # xs, g') = []"
    by (auto simp add: rmatch_Seq rmatch_Lit hex_digit_def)
  have "rmatch INNERMOST_COLOR_RE (s, []) =
        concat (map ?K (rep (rmatch (Class hex_digit)) 6 (Some 8) True (t, [])))"
    using p7 by (simp add: INNERMOST_COLOR_RE_def rmatch_lit d7 rmatch_Group rmatch_Lit
        rmatch_Rep rmatch_Seq [where a = "lit (u ''[color='')"]
        rmatch_Seq [where a = "Group ''hex'' (Seq (Lit 35) (Rep (Class hex_digit) 6 (Some 8) True))"]
        rmatch_Seq [where a = "Lit 35"]
        map_concat comp_def case_prod_unfold)
  also have "\<dots> = (if 6 \<le> ?n \<and> ?n \<le> 8 then ?K (drop ?n t, []) else [])"
    by (simp only: rep_class_greedy [where p = hex_digit and K = ?K, OF K] Let_def option.case)
  finally have r: "rmatch INNERMOST_COLOR_RE (s, []) =
      (if 6 \<le> ?n \<and> ?n \<le> 8 then ?K (drop ?n t, []) else [])" .
  show ?thesis
  proof (cases "6 \<le> ?n \<and> ?n \<le> 8 \<and> ?n < length t \<and> t ! ?n = 93")
    case False
    have "?K (drop ?n t, []) = []" if "6 \<le> ?n" "?n \<le> 8"
    proof (cases "?n < length t")
      case False
      then show ?thesis by (simp add: rmatch_Lit rmatch_Seq [where a = "Lit 93"])
    next
      case True
      with False that have "t ! ?n \<noteq> 93" by simp
      then show ?thesis
        using takeWhile_stop(1) [OF True] by (simp add: rmatch_Lit rmatch_Seq [where a = "Lit 93"])
    qed
    with r have "rmatch INNERMOST_COLOR_RE (s, []) = []" by auto
    moreover have "color_open s = None"
      using False by (auto simp add: color_open_def d8 Let_def)
    ultimately show ?thesis
      by (simp add: match_at_first color_span_at_def)
  next
    case ok: True
    then have n: "?n < length t" and c: "t ! ?n = 93" by simp_all
    from takeWhile_stop(1) [OF n] c
    have d: "drop ?n t = 93 # drop (Suc ?n) t" by simp
    have len: "length (35 # t) - length (drop ?n t) = Suc ?n" using n by simp
    let ?g = "[(''hex'', 35 # take ?n t)]"
    have "?K (drop ?n t, []) =
          rmatch (Seq (Group ''text'' (Rep lazy_body 0 None False)) (lit (u ''[/color]'')))
            (drop (Suc ?n) t, ?g)"
      unfolding prod.case len by (subst rmatch_Seq) (simp add: d rmatch_Lit)
    also have "\<dots> = concat (map
       (\<lambda>(r', g'). rmatch (lit (u ''[/color]''))
           (r', (''text'', take (length ([] @ drop (Suc ?n) t) - length r')
                   ([] @ drop (Suc ?n) t)) # g'))
       (rep (rmatch lazy_body) 0 None False (drop (Suc ?n) t, ?g)))"
      by (simp add: rmatch_Seq rmatch_Rep rmatch_Group map_concat comp_def case_prod_unfold
          del: drop_drop)
    finally have "first_of (?K (drop ?n t, [])) =
        map_option (\<lambda>(inner, rest). (rest, (''text'', [] @ inner) # ?g))
          (color_close (drop (Suc ?n) t))"
      by (simp only: lazy_close)
    moreover have "color_open s = Some (35 # take ?n t, drop (Suc ?n) t)"
      using ok True by (simp add: color_open_def d8 Let_def)
    ultimately show ?thesis
      using r ok
      by (simp add: match_at_first color_span_at_def
          option.map_comp comp_def case_prod_unfold split: option.splits)
  qed
qed

lemma u_color_hash: "u ''[color=#'' = u ''[color='' @ [35]"
  by (simp add: u_def)

lemma color_open_Some:
  assumes "color_open s = Some (h, t)"
  shows "\<exists>d. h = 35 # d \<and> list_all hex_digit d \<and> 6 \<le> length d \<and> length d \<le> 8
             \<and> s = u ''[color='' @ h @ 93 # t"
proof -
  from assms have p: "prefix (u ''[color=#'') s"
    by (auto simp add: color_open_def split: if_splits)
  then obtain t0 where s: "s = u ''[color=#'' @ t0" by (auto simp add: prefix_def)
  then have d8: "drop 8 s = t0" by simp
  let ?n = "length (takeWhile hex_digit t0)"
  from assms p have c: "6 \<le> ?n" "?n \<le> 8" "?n < length t0" "t0 ! ?n = 93"
    and h: "h = 35 # take ?n t0" and t: "t = drop (Suc ?n) t0"
    by (auto simp add: color_open_def d8 Let_def split: if_splits)
  have tk: "take ?n t0 = takeWhile hex_digit t0"
    by (simp add: takeWhile_eq_take [symmetric])
  have "t0 = take ?n t0 @ drop ?n t0" by simp
  also have "drop ?n t0 = 93 # t"
    using takeWhile_stop(1) [OF c(3)] c(4) t by simp
  finally have "t0 = take ?n t0 @ 93 # t" .
  then have "s = u ''[color='' @ h @ 93 # t"
    using s h by (simp add: u_color_hash)
  moreover have "list_all hex_digit (take ?n t0)"
    unfolding tk by (simp add: list_all_iff) (meson set_takeWhileD)
  moreover have "length (take ?n t0) = ?n" using c(3) by simp
  ultimately show ?thesis using h c by auto
qed

lemma color_close_Some:
  "color_close t = Some (i, a) \<Longrightarrow> t = i @ u ''[/color]'' @ a"
proof (induction t arbitrary: i)
  case Nil
  then show ?case by simp
next
  case (Cons x xs)
  show ?case
  proof (cases "prefix (u ''[/color]'') (x # xs)")
    case True
    with Cons.prems have ia: "i = []" "a = drop 8 (x # xs)" by simp_all
    from True obtain zs where zs: "x # xs = u ''[/color]'' @ zs" by (auto simp add: prefix_def)
    have "drop 8 (x # xs) = zs" by (subst zs) simp
    with ia zs show ?thesis by simp
  next
    case False
    with Cons.prems obtain i' where "color_close xs = Some (i', a)" "i = x # i'"
      by (auto split: if_splits)
    with Cons.IH show ?thesis by simp
  qed
qed

lemma color_span_at_Some:
  assumes "color_span_at s = Some (h, i, a)"
  shows "\<exists>d. h = 35 # d \<and> list_all hex_digit d \<and> 6 \<le> length d \<and> length d \<le> 8
             \<and> s = u ''[color='' @ h @ 93 # i @ u ''[/color]'' @ a"
proof -
  from assms obtain t where o: "color_open s = Some (h, t)" and c: "color_close t = Some (i, a)"
    by (auto simp add: color_span_at_def split: option.splits)
  from color_open_Some [OF o] color_close_Some [OF c] show ?thesis by auto
qed

lemma span_search_Some:
  "span_search s = Some (b, h, i, a) \<Longrightarrow>
   \<exists>d. h = 35 # d \<and> list_all hex_digit d \<and> 6 \<le> length d \<and> length d \<le> 8
       \<and> s = b @ u ''[color='' @ h @ 93 # i @ u ''[/color]'' @ a"
proof (induction s arbitrary: b)
  case Nil
  then show ?case
    by (subst (asm) span_search.simps) (auto dest: color_span_at_Some split: option.splits)
next
  case (Cons x xs)
  show ?case
  proof (cases "color_span_at (x # xs)")
    case (Some m)
    with Cons.prems have "color_span_at (x # xs) = Some (h, i, a)" "b = []"
      by (subst (asm) span_search.simps, auto)+
    with color_span_at_Some show ?thesis by auto
  next
    case None
    with Cons.prems obtain b' where "span_search xs = Some (b', h, i, a)" "b = x # b'"
      by (subst (asm) span_search.simps) auto
    with Cons.IH show ?thesis by auto
  qed
qed

lemma search_from_color:
  "search_from INNERMOST_COLOR_RE pos s =
     map_option (\<lambda>(b, h, i, a). (pos + length b, pos + (length s - length a),
                                  [(''text'', i), (''hex'', h)]))
       (span_search s)"
proof (induction s arbitrary: pos)
  case Nil
  show ?case
    by (subst search_from.simps, subst span_search.simps)
       (simp add: match_at_color split: option.splits)
next
  case (Cons x xs)
  show ?case
  proof (cases "color_span_at (x # xs)")
    case (Some m)
    then show ?thesis
      by (subst search_from.simps, subst span_search.simps)
         (simp add: match_at_color split: prod.splits)
  next
    case None
    show ?thesis
    proof (cases "span_search xs")
      case n: None
      with None show ?thesis
        by (subst search_from.simps, subst span_search.simps)
           (simp add: match_at_color Cons.IH)
    next
      case (Some m)
      obtain b h i a where m: "m = (b, h, i, a)" by (cases m) auto
      from span_search_Some [OF Some [unfolded m]] have "length a \<le> length xs" by auto
      then have "Suc (length xs - length a) = Suc (length xs) - length a" by simp
      with None Some m show ?thesis
        by (subst search_from.simps, subst span_search.simps)
           (simp add: match_at_color Cons.IH)
    qed
  qed
qed

lemma list_all_take_drop: "list_all P xs \<Longrightarrow> list_all P (take n (drop k xs))"
  by (simp add: list_all_iff) (meson in_set_dropD in_set_takeD)

lemma drop_suffix: "s = p @ a \<Longrightarrow> drop (length s - length a) s = a"
  by simp

lemma int16_hex: "s \<noteq> [] \<Longrightarrow> list_all hex_digit s \<Longrightarrow> int16 s = Inr (hex_pair s)"
  by (simp add: int16_def hex_pair_def)

lemma replace_match_span:
  assumes "span_search s = Some (b, h, i, a)"
  shows "replace_match s (length b, length s - length a, [(''text'', i), (''hex'', h)])
         = Inr (b @ ansi_span h i @ a)"
proof -
  from span_search_Some [OF assms] obtain d where h: "h = 35 # d" and d: "list_all hex_digit d"
    "6 \<le> length d" "length d \<le> 8"
    and s: "s = b @ u ''[color='' @ h @ 93 # i @ u ''[/color]'' @ a" by blast
  define rgb where "rgb = drop (length h - 6) h"
  have rgb: "rgb = drop (length d - 5 - 1) d" using d(2) h
    by (simp add: rgb_def drop_Cons')
  have len: "length rgb = 6" using d(2) unfolding rgb by simp
  have hx: "list_all hex_digit rgb" unfolding rgb using d(1)
    by (simp add: list_all_iff) (meson in_set_dropD)
  have p1: "take 2 rgb \<noteq> []" "take 2 (drop 2 rgb) \<noteq> []" "take 2 (drop 4 rgb) \<noteq> []"
    using len by auto
  have p2: "list_all hex_digit (take 2 rgb)" "list_all hex_digit (take 2 (drop 2 rgb))"
    "list_all hex_digit (take 2 (drop 4 rgb))"
    using list_all_take_drop [OF hx, of 2 0] list_all_take_drop [OF hx, of 2 2]
      list_all_take_drop [OF hx, of 2 4] by simp_all
  have i1: "int16 (take 2 rgb) = Inr (hex_pair (take 2 rgb))"
    by (rule int16_hex [OF p1(1) p2(1)])
  have i2: "int16 (take 2 (drop 2 rgb)) = Inr (hex_pair (take 2 (drop 2 rgb)))"
    by (rule int16_hex [OF p1(2) p2(2)])
  have i3: "int16 (take 2 (drop 4 rgb)) = Inr (hex_pair (take 2 (drop 4 rgb)))"
    by (rule int16_hex [OF p1(3) p2(3)])
  have tk: "take (length b) s = b" using s by simp
  have "s = (b @ u ''[color='' @ h @ 93 # i @ u ''[/color]'') @ a" by (subst s) simp
  then have dr: "drop (length s - length a) s = a" by (rule drop_suffix)
  have g1: "group [(''text'', i), (''hex'', h)] ''hex'' = Inr h"
    and g2: "group [(''text'', i), (''hex'', h)] ''text'' = Inr i"
    by (simp_all add: group_def)
  show ?thesis
    unfolding replace_match_def prod.case g1 g2 and_then_Inr Let_def rgb_def [symmetric]
      i1 i2 i3 ansi_span_def tk dr
    by (rule refl)
qed

lemma render_unfold:
  "render_all_colors_iteratively s =
     (case color_step s of None \<Rightarrow> Some (Inr s) | Some s' \<Rightarrow> render_all_colors_iteratively s')"
proof (cases "span_search s")
  case None
  then show ?thesis
    by (subst render_all_colors_iteratively.simps)
       (simp add: re_search_def search_from_color color_step_def)
next
  case (Some m)
  obtain b h i a where m: "m = (b, h, i, a)" by (cases m) auto
  show ?thesis
    using Some replace_match_span [of s b h i a]
    by (subst render_all_colors_iteratively.simps)
       (simp add: re_search_def search_from_color color_step_def m)
qed








lemma ansi_span_shape:
  "\<exists>X. ansi_span h i = 27 # 91 # 51 # X @ i @ [27, 91, 48, 109] \<and> set X \<subseteq> {48..57} \<union> {59, 109}"
proof -
  define rgb where "rgb = drop (length h - 6) h"
  let ?X = "u ''8;2;'' @ str_nat (hex_pair (take 2 rgb)) @ u '';''
      @ str_nat (hex_pair (take 2 (drop 2 rgb))) @ u '';''
      @ str_nat (hex_pair (take 2 (drop 4 rgb))) @ u ''m''"
  have "ansi_span h i = 27 # 91 # 51 # ?X @ i @ [27, 91, 48, 109]"
    unfolding ansi_span_def Let_def rgb_def [symmetric] ansi_colored_def
    by (simp add: u_def)
  moreover have "set ?X \<subseteq> {48..57} \<union> {59, 109}"
    using str_nat_digits by (auto simp add: u_def)
  ultimately show ?thesis by blast
qed






lemmas render_eval = render_unfold color_step_def span_search.simps color_span_at_def
  color_open_def ansi_span_def ansi_colored_def hex_pair_def hex_val_def hex_digit_def
  str_nat.simps u_def Let_def

lemmas font_eval = re_sub.simps match_at_font font_open_def not_bracket_def


lemma triple_nested:
  "rendered_markup
     (u ''[color=#FF0000]R [color=#00FF00]G [color=#0000FF]B[/color] G[/color] R[/color]'')
   = Some (Inr ([27] @ u ''[38;2;255;0;0mR '' @ [27] @ u ''[38;2;0;255;0mG ''
        @ [27] @ u ''[38;2;0;0;255mB'' @ [27] @ u ''[0m G'' @ [27] @ u ''[0m R''
        @ [27] @ u ''[0m''))"
  by (simp add: rendered_markup_def font_eval render_eval)

lemma color_open_not_bracket: "x \<noteq> 91 \<Longrightarrow> color_open (x # s) = None"
  by (simp add: color_open_def u_def)

lemma color_open_not_c: "y \<noteq> 99 \<Longrightarrow> color_open (x # y # s) = None"
  by (simp add: color_open_def u_def)

lemma span_search_Nil [simp]: "span_search [] = None"
  by (subst span_search.simps) (simp add: color_span_at_def color_open_def)

lemma span_search_skip:
  assumes "color_open (x # s) = None"
  shows "span_search (x # s) = shift [x] (span_search s)"
  using assms
  by (subst span_search.simps, cases "span_search s") (auto simp add: color_span_at_def)

lemma shift_shift: "shift a (shift b r) = shift (a @ b) r"
  by (cases r) auto

lemma shift_Nil [simp]: "shift [] r = r"
  by (cases r) auto

lemma inert_skip: "inert t \<Longrightarrow> span_search (t @ R) = shift t (span_search R)"
proof (induction t rule: inert.induct)
  case 1
  show ?case by (cases "span_search R") auto
next
  case (2 x)
  then have "color_open (x # R) = None" by (simp add: color_open_not_bracket)
  from span_search_skip [OF this] show ?case by simp
next
  case (3 x y r)
  then have "color_open (x # y # r @ R) = None"
    by (cases "x = 91") (simp_all add: color_open_not_bracket color_open_not_c)
  from span_search_skip [OF this] 3 show ?case by (simp add: shift_shift)
qed

lemma inert_span_search: "inert s \<Longrightarrow> span_search s = None"
  using inert_skip [of s "[]"] by simp

lemma inert_render: "inert s \<Longrightarrow> render_all_colors_iteratively s = Some (Inr s)"
  by (subst render_unfold) (simp add: color_step_def inert_span_search)

lemma inert_close:
  "inert t \<Longrightarrow> color_close (t @ R) = map_option (\<lambda>(i, a). (t @ i, a)) (color_close R)"
proof (induction t rule: inert.induct)
  case 1
  show ?case by (cases "color_close R") auto
next
  case (2 x)
  then show ?case by (cases "color_close R") (auto simp add: u_def)
next
  case (3 x y r)
  then have "\<not> prefix (u ''[/color]'') (x # y # r @ R)" "\<not> prefix (u ''[color='') (x # y # r @ R)"
    by (auto simp add: u_def)
  with 3 show ?case
    by (cases "color_close (y # r @ R)") (auto simp add: option.map_comp comp_def case_prod_unfold)
qed

lemma inert_append: "inert a \<Longrightarrow> inert b \<Longrightarrow> inert (a @ b)"
proof (induction a rule: inert.induct)
  case 1
  then show ?case by simp
next
  case (2 x)
  then show ?case by (cases b) simp_all
next
  case (3 x y r)
  then show ?case by simp
qed

lemma plain_inert: "91 \<notin> set s \<Longrightarrow> inert s"
  by (induction s rule: inert.induct) auto

lemma inert_font_sub: "inert s \<Longrightarrow> re_sub FONT_OPEN_RE [] s = s"
proof (induction s rule: inert.induct)
  case 1
  show ?case by (subst re_sub.simps) (simp add: match_at_font font_open_def u_def)
next
  case (2 x)
  have "re_sub FONT_OPEN_RE [] [] = []"
    by (subst re_sub.simps) (simp add: match_at_font font_open_def u_def)
  with 2 show ?case by (subst re_sub.simps) (simp add: match_at_font font_open_def u_def)
next
  case (3 x y r)
  then have "font_open (x # y # r) = None" by (auto simp add: font_open_def u_def)
  with 3 show ?case by (subst re_sub.simps) (simp add: match_at_font)
qed

lemma inert_replace: "inert s \<Longrightarrow> str_replace (u ''[/font]'') [] s = s"
  by (induction s rule: inert.induct) (auto simp add: u_def)

lemma inert_rendered: "inert s \<Longrightarrow> rendered_markup s = Some (Inr s)"
  by (simp add: rendered_markup_def inert_font_sub inert_replace inert_render)

lemma inert_count:
  assumes "inert s" "c = 99 \<or> c = 47 \<or> c = 102"
  shows "count_occ (91 # c # w) s = 0"
  using assms by (induction s rule: inert.induct) auto

lemma inert_no_tags:
  assumes "inert s"
  shows "count_occ (u ''[font='') s = 0" "count_occ (u ''[/font]'') s = 0"
    "count_occ (u ''[color='') s = 0" "count_occ (u ''[/color]'') s = 0"
  using inert_count [OF assms] by (simp_all add: u_def)

lemma inert_ansi: "inert i \<Longrightarrow> inert (ansi_span h i)"
proof -
  assume i: "inert i"
  obtain X where s: "ansi_span h i = 27 # 91 # 51 # X @ i @ [27, 91, 48, 109]"
    and X: "set X \<subseteq> {48..57} \<union> {59, 109}"
    using ansi_span_shape by blast
  have "91 \<notin> set X" using X by auto
  then have "inert X" by (rule plain_inert)
  moreover have "inert [27, 91, 48, 109]" by simp
  ultimately have "inert (X @ i @ [27, 91, 48, 109])" using i by (intro inert_append)
  moreover have "inert [27, 91, 51]" by simp
  ultimately have "inert ([27, 91, 51] @ X @ i @ [27, 91, 48, 109])" by (rule inert_append [rotated])
  then show ?thesis by (simp add: s)
qed

lemma hex_code_plain: "hex_code h \<Longrightarrow> 91 \<notin> set h"
  by (cases h) (auto simp add: hex_code_def list_all_iff hex_digit_def)

lemma color_open_literal:
  assumes "hex_code h"
  shows "color_open (u ''[color='' @ h @ 93 # R) = Some (h, R)"
proof -
  from assms obtain d where h: "h = 35 # d" and d: "6 \<le> length d" "length d \<le> 8"
    "list_all hex_digit d"
    by (cases h) (auto simp add: hex_code_def)
  have s: "u ''[color='' @ h @ 93 # R = u ''[color=#'' @ d @ 93 # R"
    by (simp add: h u_color_hash)
  have tw: "takeWhile hex_digit (d @ 93 # R) = d"
    using d(3) by (simp add: takeWhile_append2 list_all_iff hex_digit_def)
  show ?thesis
    unfolding s color_open_def using d(1,2)
    by (simp add: tw Let_def h nth_append)
qed

lemma color_close_literal:
  assumes "inert i"
  shows "color_close (i @ u ''[/color]'' @ R) = Some (i, R)"
proof -
  have "color_close (u ''[/color]'' @ R) = Some ([], R)" by (simp add: u_def)
  with inert_close [OF assms, of "u ''[/color]'' @ R"] show ?thesis by simp
qed

lemma color_span_at_literal:
  assumes "hex_code h" "inert i"
  shows "color_span_at (color_span h i @ R) = Some (h, i, R)"
proof -
  have "color_span h i @ R = u ''[color='' @ h @ 93 # (i @ u ''[/color]'' @ R)"
    by (simp add: color_span_def u_def)
  then show ?thesis
    by (simp add: color_span_at_def color_open_literal [OF assms(1)]
        color_close_literal [OF assms(2)])
qed

lemma color_step_span:
  assumes "inert a" "hex_code h" "inert i"
  shows "color_step (a @ color_span h i @ R) = Some (a @ ansi_span h i @ R)"
proof -
  have "span_search (color_span h i @ R) = Some ([], h, i, R)"
    by (subst span_search.simps) (simp add: color_span_at_literal [OF assms(2,3)])
  with inert_skip [OF assms(1), of "color_span h i @ R"] show ?thesis
    by (simp add: color_step_def)
qed

lemma render_span:
  assumes "inert a" "hex_code h" "inert i"
  shows "render_all_colors_iteratively (a @ color_span h i @ R)
         = render_all_colors_iteratively (a @ ansi_span h i @ R)"
  by (subst render_unfold) (simp add: color_step_span [OF assms])

lemma render_wrap:
  assumes "inert a" "inert x" "\<forall>c. hex_code (rgb2hex c)"
  shows "render_all_colors_iteratively (a @ wrap rgb2hex cm t x @ R)
         = render_all_colors_iteratively (a @ wrap_rendered rgb2hex cm t x @ R)"
  using assms by (auto simp add: wrap_def wrap_rendered_def render_span split: option.splits)

lemma inert_wrap_rendered: "inert x \<Longrightarrow> inert (wrap_rendered rgb2hex cm t x)"
  by (auto simp add: wrap_rendered_def inert_ansi split: option.splits)

section \<open>The claims about the condition generator\<close>

text \<open>
  C1 (amended). For every configuration with \<open>length \<ge> 1\<close> and \<open>step_size \<ge> 1\<close> the generator
  returns a non-empty list whose last condition has the threshold \<open>length * 8\<close>, the value of
  \<open>max_threshold\<close>, and the comparator \<open>>=\<close>. The raw step list ends with
  \<open>max_threshold - 1\<close>, and line 82 adds one before the threshold is stored.
\<close>

theorem last_threshold:
  assumes "1 \<le> length' config" "1 \<le> step_size config"
  shows "\<exists>cs. generate_pbar_conditions rgb2hex config = Inr cs \<and> cs \<noteq> [] \<and>
           constant' (last cs) = length' config * 8 \<and> comparator (last cs) = u ''>=''"
proof -
  let ?steps = "steps_of (length' config) (step_size config)"
  let ?cs = "mark_ends (map (cond_of rgb2hex config) ?steps)"
  have ne: "?steps \<noteq> []" by (rule steps_of_nonempty [OF assms])
  then have cne: "?cs \<noteq> []" by (metis length_mark_ends length_map length_0_conv)
  have "constant' (last ?cs) = last (map constant' ?cs)"
    by (rule last_map [symmetric]) (rule cne)
  also have "\<dots> = last ?steps + 1"
    unfolding thresholds_closed using ne by (simp add: last_map)
  finally have c: "constant' (last ?cs) = length' config * 8"
    by (simp add: steps_of_last [OF assms])
  have "comparator (last ?cs) = u ''>=''"
    using mark_ends_last [of "map (cond_of rgb2hex config) ?steps"] ne cne
    by (simp add: last_conv_nth)
  with c cne generate_closed [OF assms, of rgb2hex] show ?thesis by simp
qed

text \<open>C1, witness: the base configuration (ten cells, step size 1) ends at threshold 80.\<close>

theorem last_threshold_witness:
  "\<exists>cs. generate_pbar_conditions (\<lambda>c. c) base_config = Inr cs \<and> cs \<noteq> [] \<and>
     constant' (last cs) = 80 \<and> comparator (last cs) = u ''>=''"
  using last_threshold [of base_config "\<lambda>c. c"] by (simp add: base_config_def)

text \<open>
  C1, counterexample to the claim as stated (last threshold \<open>length * 8 - 1\<close>, that is 79 for
  ten cells and step size 1): the last threshold of the base configuration is 80.
\<close>

theorem last_threshold_not_79:
  "map_sum id (constant' \<circ> last) (generate_pbar_conditions (\<lambda>c. c) base_config) = Inr 80 \<and>
   map_sum id (constant' \<circ> last) (generate_pbar_conditions (\<lambda>c. c) base_config)
     \<noteq> Inr (10 * 8 - 1)"
  by (simp add: generate_base_last)

text \<open>
  C2. For every configuration with \<open>length \<ge> 1\<close> and \<open>step_size \<ge> 1\<close> the generator returns a
  non-empty list with strictly increasing thresholds; the first condition has comparator
  \<open><=\<close> and threshold 0, the last has comparator \<open>>=\<close>, every condition between them has
  comparator \<open>=\<close>; and ten cells with step size 1 give exactly 81 conditions.
\<close>

theorem conditions_shape:
  assumes "1 \<le> length' config" "1 \<le> step_size config"
  shows "\<exists>cs. generate_pbar_conditions rgb2hex config = Inr cs \<and> cs \<noteq> [] \<and>
           sorted_wrt (<) (map constant' cs) \<and>
           comparator (hd cs) = u ''<='' \<and> constant' (hd cs) = 0 \<and>
           comparator (last cs) = u ''>='' \<and>
           (\<forall>i. 0 < i \<and> i < length cs - 1 \<longrightarrow> comparator (cs ! i) = u ''='') \<and>
           (length' config = 10 \<and> step_size config = 1 \<longrightarrow> length cs = 81)"
proof -
  let ?steps = "steps_of (length' config) (step_size config)"
  let ?raw = "map (cond_of rgb2hex config) ?steps"
  let ?cs = "mark_ends ?raw"
  have ne: "?steps \<noteq> []" by (rule steps_of_nonempty [OF assms])
  have len: "2 \<le> length ?raw" using steps_of_length [OF assms] by simp
  have cne: "?cs \<noteq> []" using len by (metis length_mark_ends length_0_conv not_numeral_le_zero)
  have srt: "sorted_wrt (<) (map constant' ?cs)"
    unfolding thresholds_closed by (rule sorted_wrt_succ [OF steps_of_sorted [OF assms]])
  have first: "comparator (hd ?cs) = u ''<=''"
    using mark_ends_first [OF len] cne by (simp add: hd_conv_nth)
  have "constant' (hd ?cs) = hd (map constant' ?cs)"
    by (rule hd_map [symmetric]) (rule cne)
  also have "\<dots> = hd ?steps + 1"
    unfolding thresholds_closed using ne by (simp add: hd_map)
  finally have zero: "constant' (hd ?cs) = 0" by (simp add: steps_of_hd [OF assms])
  have lst: "comparator (last ?cs) = u ''>=''"
    using mark_ends_last [of ?raw] ne cne by (simp add: last_conv_nth)
  have mid: "comparator (?cs ! i) = u ''=''" if "0 < i" "i < length ?cs - 1" for i
  proof -
    have "?cs ! i = ?raw ! i" using that by (simp add: mark_ends_middle)
    also have "\<dots> = cond_of rgb2hex config (?steps ! i)" using that by simp
    finally show ?thesis by (simp add: cond_of_def)
  qed
  have n81: "length ?cs = 81" if "length' config = 10 \<and> step_size config = 1"
    using that by (simp add: steps_of_base)
  show ?thesis
    using generate_closed [OF assms, of rgb2hex] cne srt first zero lst mid n81 by simp
qed

text \<open>C2, witness: the base configuration.\<close>

theorem conditions_shape_witness:
  "\<exists>cs. generate_pbar_conditions (\<lambda>c. c) base_config = Inr cs \<and> cs \<noteq> [] \<and>
     sorted_wrt (<) (map constant' cs) \<and>
     comparator (hd cs) = u ''<='' \<and> constant' (hd cs) = 0 \<and>
     comparator (last cs) = u ''>='' \<and> length cs = 81"
proof -
  have "1 \<le> length' base_config" "1 \<le> step_size base_config"
    by (simp_all add: base_config_def)
  from conditions_shape [OF this, of "\<lambda>c. c"] obtain cs where
    "generate_pbar_conditions (\<lambda>c. c) base_config = Inr cs" "cs \<noteq> []"
    "sorted_wrt (<) (map constant' cs)" "comparator (hd cs) = u ''<=''"
    "constant' (hd cs) = 0" "comparator (last cs) = u ''>=''"
    "length' base_config = 10 \<and> step_size base_config = 1 \<longrightarrow> length cs = 81"
    by blast
  then show ?thesis by (intro exI [of _ cs]) (simp add: base_config_def)
qed




text \<open>
  C10 (amended). The generator never returns an empty list and raises only built-in
  exceptions. A step size of 0 raises ValueError (from \<open>range\<close>) whatever the length; a
  negative step size with a length of 0 or more, and a positive step size with a negative
  length, raise IndexError (\<open>steps[-1]\<close> on the empty list); a positive step size with
  length 0 raises ZeroDivisionError (the first percentage); a negative step size with a
  negative length raises nothing and returns a non-empty list.
\<close>

theorem invalid_configurations:
  "(step_size config = 0 \<longrightarrow> generate_pbar_conditions rgb2hex config = Inl ValueError) \<and>
   (step_size config < 0 \<and> 0 \<le> length' config \<longrightarrow>
      generate_pbar_conditions rgb2hex config = Inl IndexError) \<and>
   (0 < step_size config \<and> length' config < 0 \<longrightarrow>
      generate_pbar_conditions rgb2hex config = Inl IndexError) \<and>
   (0 < step_size config \<and> length' config = 0 \<longrightarrow>
      generate_pbar_conditions rgb2hex config = Inl ZeroDivisionError) \<and>
   (step_size config < 0 \<and> length' config < 0 \<longrightarrow>
      (\<exists>cs. generate_pbar_conditions rgb2hex config = Inr cs \<and> cs \<noteq> [])) \<and>
   generate_pbar_conditions rgb2hex config \<noteq> Inr []"
proof -
  have "generate_pbar_conditions rgb2hex config \<noteq> Inr []"
    using run_never_empty [of rgb2hex config]
    by (cases "run_pbar_conditions rgb2hex config") (auto simp add: generate_pbar_conditions_def)
  moreover have "\<exists>cs. generate_pbar_conditions rgb2hex config = Inr cs \<and> cs \<noteq> []"
    if "step_size config < 0" "length' config < 0"
    using run_both_negative [OF that, of rgb2hex] by (auto simp add: generate_pbar_conditions_def)
  ultimately show ?thesis
    by (simp add: generate_pbar_conditions_def run_zero_step run_negative_step
        run_negative_length run_zero_length)
qed

text \<open>C10, witness: one configuration for each of the five cases.\<close>

theorem invalid_configurations_witness:
  "generate_pbar_conditions (\<lambda>c. c) (with_size 10 0) = Inl ValueError \<and>
   generate_pbar_conditions (\<lambda>c. c) (with_size 10 (- 1)) = Inl IndexError \<and>
   generate_pbar_conditions (\<lambda>c. c) (with_size (- 1) 1) = Inl IndexError \<and>
   generate_pbar_conditions (\<lambda>c. c) (with_size 0 1) = Inl ZeroDivisionError \<and>
   (\<exists>cs. generate_pbar_conditions (\<lambda>c. c) (with_size (- 1) (- 1)) = Inr cs \<and> cs \<noteq> [])"
  using invalid_configurations [of "with_size 10 0" "\<lambda>c. c"]
    invalid_configurations [of "with_size 10 (- 1)" "\<lambda>c. c"]
    invalid_configurations [of "with_size (- 1) 1" "\<lambda>c. c"]
    invalid_configurations [of "with_size 0 1" "\<lambda>c. c"]
    invalid_configurations [of "with_size (- 1) (- 1)" "\<lambda>c. c"]
  by (simp add: with_size_def base_config_def)

text \<open>
  C10, counterexample to the claim as stated (a negative length or a negative step size
  raises IndexError): with length -1 and step size -1 the range is \<open>-1, ..., -7\<close>, and the
  generator returns seven conditions with the thresholds \<open>0, -1, ..., -6\<close>.
\<close>

theorem both_negative_returns:
  "map_sum id (map constant') (generate_pbar_conditions (\<lambda>c. c) (with_size (- 1) (- 1)))
     = Inr [0, - 1, - 2, - 3, - 4, - 5, - 6]"
proof -
  let ?c = "with_size (- 1) (- 1)"
  have r: "py_range (- 1) (length' ?c * 8) (step_size ?c) = Inr [- 1, - 2, - 3, - 4, - 5, - 6, - 7]"
    by (simp add: with_size_def base_config_def py_range_def upt_rec)
  have nz: "length' ?c \<noteq> 0" by (simp add: with_size_def)
  have st: "[- 1, - 2, - 3, - 4, - 5, - 6, - 7] =
     (if last [- 1, - 2, - 3, - 4, - 5, - 6, - 7 :: int] < length' ?c * 8 - 1
      then [- 1, - 2, - 3, - 4, - 5, - 6, - 7] @ [length' ?c * 8 - 1]
      else [- 1, - 2, - 3, - 4, - 5, - 6, - 7])"
    by (simp add: with_size_def)
  have "run_pbar_conditions (\<lambda>c. c) ?c =
      Inr (concat (map (calls_of ?c) [- 1, - 2, - 3, - 4, - 5, - 6, - 7]),
           mark_ends (map (cond_of (\<lambda>c. c) ?c) [- 1, - 2, - 3, - 4, - 5, - 6, - 7]))"
    by (rule run_closed_raw [OF r _ nz st]) simp
  then show ?thesis
    by (simp only: generate_pbar_conditions_def map_sum.simps snd_conv thresholds_closed)
      simp
qed



section \<open>The claims about the markup renderer\<close>



text \<open>
  C4 (the code differs from the claim). \<open>{6,8}\<close> in \<open>INNERMOST_COLOR_RE\<close> admits seven hex digits
  as well, although the comment above the pattern and the docstring of
  \<open>pretty_print_markup\<close> speak of 6 or 8 digits: the tag \<open>[color=#1234567]\<close> is recognised,
  the last six digits \<open>234567\<close> give the colour, and an ANSI escape is produced.
\<close>

theorem seven_digit_tag_rendered:
  "rendered_markup (u ''[color=#1234567]x[/color]'')
   = Some (Inr ([27] @ u ''[38;2;35;69;103mx'' @ [27] @ u ''[0m''))"
  by (simp add: rendered_markup_def font_eval render_eval)

end
